theory Spec2Isabelle
  imports Complex_Main
begin

section \<open>The answer procedure of \<^verbatim>\<open>core/qa_pipeline.py\<close>\<close>

text \<open>
  The development embeds \<^verbatim>\<open>get_answer(model_components, question, pdf_text)\<close>.
  Everything the function calls but does not define (the question-answering pipeline, the
  FLAN-T5 tokenizer and model) is a parameter. These collaborators may keep state of their
  own, so each of them takes and returns a world state \<open>'w\<close>; each may raise, so each
  returns a sum with the raised exception on the left. What \<^verbatim>\<open>get_answer\<close> does to
  the outside (the Streamlit spinner, the calls, the \<^verbatim>\<open>print\<close> of a failure) is
  recorded, in order, in a list of events.
\<close>

subsection \<open>Values\<close>

text \<open>
  \<^verbatim>\<open>except Exception as e\<close> catches the exceptions derived from \<^verbatim>\<open>Exception\<close>;
  the payload is the message of the exception. Interpreter signals outside that class
  (\<^verbatim>\<open>KeyboardInterrupt\<close>, \<^verbatim>\<open>SystemExit\<close>) are not failures of a collaborator and are
  not part of the model.
\<close>

datatype exn = Exception string

text \<open>
  \<^verbatim>\<open>pdf_text\<close> is whatever the caller passes: \<^verbatim>\<open>None\<close>, a \<^verbatim>\<open>str\<close>, or an object
  of another type. \<^verbatim>\<open>get_answer\<close> does two things with such an object: the f-string of
  the generative path formats it, and the test of line 84 takes its truth value. Both run
  code of the object and may raise (the truth value of a NumPy array or a Torch tensor with
  several elements does), so \<open>DocOther\<close> carries what formatting gives and what
  \<^verbatim>\<open>bool(pdf_text)\<close> gives, each one a value or the exception raised.
\<close>

datatype doc = DocNone | DocStr string | DocOther "exn + string" "exn + bool"

text \<open>
  The pipeline is taken to return a list of fresh dictionaries on every call, so the in-place
  assignment \<^verbatim>\<open>result['context'] = chunk\<close> is the construction of a new record.
  \<open>scored\<close> is one such dictionary: \<open>answer = None\<close> stands for a missing
  \<^verbatim>\<open>'answer'\<close> key; scores are Python floats, modelled as reals, so a NaN score is
  outside the model; the keys \<^verbatim>\<open>'start'\<close> and \<^verbatim>\<open>'end'\<close> are never read. A
  \<open>string\<close> is the list of the characters that Python's \<^verbatim>\<open>len\<close> and slicing count.
\<close>

record scored =
  answer :: "string option"
  score :: real

record candidate = scored +
  context' :: string

record answer_result =
  res_answer :: string
  res_score :: real
  res_context :: string

type_synonym tensor = "nat list"

type_synonym 'w qa_pipeline = "'w \<Rightarrow> string \<Rightarrow> string \<Rightarrow> (exn + scored list) \<times> 'w"

record 'w t5_model =
  name_or_path :: string
  generate :: "'w \<Rightarrow> tensor \<Rightarrow> (exn + tensor list) \<times> 'w"

record 'w t5_tokenizer =
  encode :: "'w \<Rightarrow> string \<Rightarrow> nat \<Rightarrow> string \<Rightarrow> (exn + tensor) \<times> 'w"
  decode :: "'w \<Rightarrow> tensor \<Rightarrow> (exn + string) \<times> 'w"

text \<open>
  The dictionary built by \<^verbatim>\<open>load_model_components\<close>. The keys \<^verbatim>\<open>"model"\<close>,
  \<^verbatim>\<open>"tokenizer"\<close> and \<^verbatim>\<open>"pipeline"\<close> are always present and may hold \<^verbatim>\<open>None\<close>;
  the key \<^verbatim>\<open>"device"\<close> is present only for a generative model (\<open>None\<close> is its
  absence).
\<close>

record 'w model_components =
  model :: "'w t5_model option"
  tokenizer :: "'w t5_tokenizer option"
  pipeline :: "'w qa_pipeline option"
  device :: "string option"

datatype event =
    Spinner_Generating
  | Spinner_Searching nat
  | TokenizerCall string nat
  | GenerateCall tensor
  | DecodeCall tensor
  | PipelineCall string string "exn + scored list"
  | Print string

subsection \<open>Python primitives\<close>

text \<open>\<^verbatim>\<open>sub in s\<close> on strings.\<close>

fun py_in :: "string \<Rightarrow> string \<Rightarrow> bool" where
  "py_in sub [] = (sub = [])"
| "py_in sub (c # cs) = (take (length sub) (c # cs) = sub \<or> py_in sub cs)"

text \<open>
  \<^verbatim>\<open>range(i, stop, step)\<close> as the list of its values. Python raises \<^verbatim>\<open>ValueError\<close>
  for a zero step; the only step \<^verbatim>\<open>get_answer\<close> uses is the constant \<open>512 - 100\<close>,
  and the first test is there to make the recursion total.
\<close>

function py_range :: "nat \<Rightarrow> nat \<Rightarrow> nat \<Rightarrow> nat list" where
  "py_range i stop step =
     (if step = 0 \<or> stop \<le> i then [] else i # py_range (i + step) stop step)"
  by pat_completeness auto
termination
  by (relation "measure (\<lambda>(i, stop, step). stop - i)") auto

text \<open>\<^verbatim>\<open>s[i:j]\<close> for \<open>0 \<le> i \<le> j\<close>: slicing clips at the end of the string.\<close>

definition slice :: "string \<Rightarrow> nat \<Rightarrow> nat \<Rightarrow> string" where
  "slice s i j = take (j - i) (drop i s)"

text \<open>
  \<^verbatim>\<open>max(xs, key=key)\<close>: the first element is the running maximum and a later element
  replaces it only when its key is strictly greater. On the empty list Python raises
  \<^verbatim>\<open>ValueError\<close>.
\<close>

definition py_max :: "('a \<Rightarrow> real) \<Rightarrow> 'a list \<Rightarrow> exn + 'a" where
  "py_max key xs =
     (case xs of
        [] \<Rightarrow> Inl (Exception ''ValueError: max() arg is an empty sequence'')
      | x # rest \<Rightarrow> Inr (foldl (\<lambda>best y. if key best < key y then y else best) x rest))"

subsection \<open>The extractive path\<close>

definition max_chunk_len :: nat where
  "max_chunk_len = 512"

definition overlap :: nat where
  "overlap = 100"

text \<open>The windows for a window length \<open>wl\<close> and an overlap \<open>ov\<close> (lines 85 and 86).\<close>

definition windows :: "nat \<Rightarrow> nat \<Rightarrow> string \<Rightarrow> string list" where
  "windows wl ov text = map (\<lambda>i. slice text i (i + wl)) (py_range 0 (length text) (wl - ov))"

text \<open>
  Lines 83 to 86. The test \<^verbatim>\<open>pdf_text and isinstance(pdf_text, str)\<close> takes the truth
  value of \<^verbatim>\<open>pdf_text\<close> first. \<^verbatim>\<open>None\<close> and the empty string are false. A non-empty
  string is true and a \<^verbatim>\<open>str\<close>, and the loop runs. For an object of another type the
  truth value is taken, which may raise; when it is false the test stops there, when it is
  true \<^verbatim>\<open>isinstance\<close> is false: no window either way.
\<close>

fun make_chunks :: "doc \<Rightarrow> exn + string list" where
  "make_chunks DocNone = Inr []"
| "make_chunks (DocStr s) = Inr (if s \<noteq> [] then windows max_chunk_len overlap s else [])"
| "make_chunks (DocOther rendering truth) =
     (case truth of Inl e \<Rightarrow> Inl e | Inr b \<Rightarrow> Inr [])"

definition annotate :: "string \<Rightarrow> scored \<Rightarrow> candidate" where
  "annotate chunk r = \<lparr>answer = answer r, score = score r, context' = chunk\<rparr>"

record 'w loop_state =
  trace :: "event list"
  all_candidates :: "candidate list"
  world :: 'w

text \<open>
  One iteration of the loop of lines 93 to 105. Calling a pipeline that is \<^verbatim>\<open>None\<close>
  raises \<^verbatim>\<open>TypeError\<close> inside the \<^verbatim>\<open>try\<close>, which the handler catches like any
  failure of the pipeline itself.
\<close>

definition process_chunk ::
  "'w qa_pipeline option \<Rightarrow> string \<Rightarrow> 'w loop_state \<Rightarrow> string \<Rightarrow> 'w loop_state" where
  "process_chunk qa question st chunk =
     (case qa of
        None \<Rightarrow>
          st\<lparr>trace := trace st @
               [Print ''Error processing a chunk: 'NoneType' object is not callable'']\<rparr>
      | Some f \<Rightarrow>
          (case f (world st) question chunk of
             (Inr results, w') \<Rightarrow>
               \<lparr>trace = trace st @ [PipelineCall question chunk (Inr results)],
                all_candidates = all_candidates st @ map (annotate chunk) results,
                world = w'\<rparr>
           | (Inl (Exception msg), w') \<Rightarrow>
               \<lparr>trace = trace st @ [PipelineCall question chunk (Inl (Exception msg)),
                                    Print (''Error processing a chunk: '' @ msg)],
                all_candidates = all_candidates st,
                world = w'\<rparr>))"

definition score_chunks ::
  "'w qa_pipeline option \<Rightarrow> string \<Rightarrow> string list \<Rightarrow> 'w \<Rightarrow> 'w loop_state" where
  "score_chunks qa question chunks w =
     foldl (process_chunk qa question)
       \<lparr>trace = [Spinner_Searching (length chunks)], all_candidates = [], world = w\<rparr> chunks"

text \<open>\<^verbatim>\<open>cand.get('answer')\<close> as a condition: the key is there and its string is not empty.\<close>

fun is_valid :: "candidate \<Rightarrow> bool" where
  "is_valid c = (case answer c of None \<Rightarrow> False | Some a \<Rightarrow> a \<noteq> [])"

definition empty_document :: answer_result where
  "empty_document =
     \<lparr>res_answer = ''The document appears to be empty.'', res_score = 0, res_context = ''N/A''\<rparr>"

definition no_confident_answer :: answer_result where
  "no_confident_answer =
     \<lparr>res_answer = ''Sorry, I couldn't find a confident answer in the document.'',
      res_score = 0, res_context = ''N/A''\<rparr>"

text \<open>Line 107.\<close>

definition valid_candidates :: "candidate list \<Rightarrow> candidate list" where
  "valid_candidates cands = filter is_valid cands"

text \<open>
  Lines 109 to 118. \<^verbatim>\<open>best_answer['answer']\<close> raises \<^verbatim>\<open>KeyError\<close> on a dictionary
  without the key.
\<close>

definition select_answer :: "candidate list \<Rightarrow> exn + answer_result" where
  "select_answer cands =
     (let valid = valid_candidates cands in
      if valid = [] then Inr no_confident_answer
      else
        (case py_max score valid of
           Inl e \<Rightarrow> Inl e
         | Inr best_answer \<Rightarrow>
             (case answer best_answer of
                None \<Rightarrow> Inl (Exception ''KeyError: 'answer' '')
              | Some a \<Rightarrow>
                  Inr \<lparr>res_answer = a, res_score = score best_answer,
                       res_context = context' best_answer\<rparr>)))"

definition extractive_path ::
  "'w model_components \<Rightarrow> string \<Rightarrow> doc \<Rightarrow> 'w \<Rightarrow> (event list \<times> (exn + answer_result)) \<times> 'w" where
  "extractive_path mc question pdf_text w =
     (case make_chunks pdf_text of
        Inl e \<Rightarrow> (([], Inl e), w)
      | Inr chunks \<Rightarrow>
          if chunks = [] then (([], Inr empty_document), w)
          else
            (let st = score_chunks (pipeline mc) question chunks w
             in ((trace st, select_answer (all_candidates st)), world st)))"

subsection \<open>The generative path\<close>

text \<open>The f-string rendering \<^verbatim>\<open>{pdf_text}\<close>.\<close>

fun format_doc :: "doc \<Rightarrow> exn + string" where
  "format_doc DocNone = Inr ''None''"
| "format_doc (DocStr s) = Inr s"
| "format_doc (DocOther rendering truth) = rendering"

definition generated_context :: string where
  "generated_context =
     ''Answer was generated, not extracted. The model used the full document as context.''"

text \<open>
  Lines 60 to 75. \<open>encode tok w text n dev\<close> stands for
  \<^verbatim>\<open>tokenizer(text, return_tensors="pt", max_length=n, truncation=True).to(dev)\<close>,
  \<open>generate\<close> for \<^verbatim>\<open>model.generate(**inputs, max_length=200, num_beams=4, early_stopping=True)\<close>
  and \<open>decode\<close> for \<^verbatim>\<open>tokenizer.decode(outputs[0], skip_special_tokens=True)\<close>. Nothing
  here is caught: an exception of a collaborator leaves \<^verbatim>\<open>get_answer\<close>.
\<close>

definition generative_path ::
  "'w model_components \<Rightarrow> 'w t5_model \<Rightarrow> string \<Rightarrow> doc \<Rightarrow> 'w \<Rightarrow>
     (event list \<times> (exn + answer_result)) \<times> 'w" where
  "generative_path mc m question pdf_text w =
     (case device mc of
        None \<Rightarrow> (([], Inl (Exception ''KeyError: 'device' '')), w)
      | Some dev \<Rightarrow>
          (case format_doc pdf_text of
             Inl e \<Rightarrow> (([], Inl e), w)
           | Inr rendered \<Rightarrow>
               (let input_text = ''question: '' @ question @ '' context: '' @ rendered in
                case tokenizer mc of
                  None \<Rightarrow>
                    (([], Inl (Exception ''TypeError: 'NoneType' object is not callable'')), w)
                | Some tok \<Rightarrow>
                    (case encode tok w input_text 1024 dev of
                       (Inl e, w1) \<Rightarrow> (([TokenizerCall input_text 1024], Inl e), w1)
                     | (Inr inputs, w1) \<Rightarrow>
                         (case generate m w1 inputs of
                            (Inl e, w2) \<Rightarrow>
                              (([TokenizerCall input_text 1024, Spinner_Generating,
                                 GenerateCall inputs], Inl e), w2)
                          | (Inr outputs, w2) \<Rightarrow>
                              (case outputs of
                                 [] \<Rightarrow>
                                   (([TokenizerCall input_text 1024, Spinner_Generating,
                                      GenerateCall inputs],
                                     Inl (Exception ''IndexError: index out of range'')), w2)
                               | out # _ \<Rightarrow>
                                   (case decode tok w2 out of
                                      (Inl e, w3) \<Rightarrow>
                                        (([TokenizerCall input_text 1024, Spinner_Generating,
                                           GenerateCall inputs, DecodeCall out], Inl e), w3)
                                    | (Inr ans, w3) \<Rightarrow>
                                        (([TokenizerCall input_text 1024, Spinner_Generating,
                                           GenerateCall inputs, DecodeCall out],
                                          Inr \<lparr>res_answer =
                                                 (if ans \<noteq> [] then ans
                                                  else ''FLAN-T5 could not generate an answer.''),
                                               res_score = 1,
                                               res_context = generated_context\<rparr>), w3))))))))"

subsection \<open>\<^verbatim>\<open>get_answer\<close>\<close>

text \<open>
  Line 59: \<^verbatim>\<open>model_components.get("model") and "t5" in model_components["model"].name_or_path\<close>.
\<close>

definition get_answer ::
  "'w model_components \<Rightarrow> string \<Rightarrow> doc \<Rightarrow> 'w \<Rightarrow> (event list \<times> (exn + answer_result)) \<times> 'w" where
  "get_answer mc question pdf_text w =
     (case model mc of
        None \<Rightarrow> extractive_path mc question pdf_text w
      | Some m \<Rightarrow>
          (if py_in ''t5'' (name_or_path m) then generative_path mc m question pdf_text w
           else extractive_path mc question pdf_text w))"

definition is_generative :: "'w model_components \<Rightarrow> bool" where
  "is_generative mc = (case model mc of None \<Rightarrow> False | Some m \<Rightarrow> py_in ''t5'' (name_or_path m))"

subsection \<open>Reading a run\<close>

text \<open>
  A run of \<^verbatim>\<open>get_answer\<close> is its list of events, what it returns or raises, and the
  world it leaves behind.
\<close>

abbreviation events_of :: "(event list \<times> (exn + answer_result)) \<times> 'w \<Rightarrow> event list" where
  "events_of run \<equiv> fst (fst run)"

abbreviation outcome_of ::
  "(event list \<times> (exn + answer_result)) \<times> 'w \<Rightarrow> exn + answer_result" where
  "outcome_of run \<equiv> snd (fst run)"

text \<open>The candidates, each with its window, that the successful pipeline calls of a trace gave.\<close>

fun event_candidates :: "event \<Rightarrow> candidate list" where
  "event_candidates (PipelineCall q chunk (Inr results)) = map (annotate chunk) results"
| "event_candidates _ = []"

definition pooled :: "event list \<Rightarrow> candidate list" where
  "pooled tr = concat (map event_candidates tr)"

text \<open>The (question, context) pairs the pipeline was called with.\<close>

fun event_call :: "event \<Rightarrow> (string \<times> string) list" where
  "event_call (PipelineCall q chunk out) = [(q, chunk)]"
| "event_call _ = []"

definition pipeline_calls :: "event list \<Rightarrow> (string \<times> string) list" where
  "pipeline_calls tr = concat (map event_call tr)"

text \<open>The messages of the pipeline calls that raised, and the lines printed.\<close>

fun event_failure :: "event \<Rightarrow> string list" where
  "event_failure (PipelineCall q chunk (Inl (Exception msg))) = [msg]"
| "event_failure _ = []"

definition failures :: "event list \<Rightarrow> string list" where
  "failures tr = concat (map event_failure tr)"

fun event_print :: "event \<Rightarrow> string list" where
  "event_print (Print line) = [line]"
| "event_print _ = []"

definition printed :: "event list \<Rightarrow> string list" where
  "printed tr = concat (map event_print tr)"



text \<open>
  A collaborator is deterministic when what it returns or raises depends on its arguments
  only, not on the world it is called in.
\<close>

definition deterministic_pipeline :: "'w qa_pipeline \<Rightarrow> bool" where
  "deterministic_pipeline f = (\<forall>w w' q c. fst (f w q c) = fst (f w' q c))"

definition deterministic_model :: "'w t5_model \<Rightarrow> bool" where
  "deterministic_model m = (\<forall>w w' inputs. fst (generate m w inputs) = fst (generate m w' inputs))"

definition deterministic_tokenizer :: "'w t5_tokenizer \<Rightarrow> bool" where
  "deterministic_tokenizer t =
     ((\<forall>w w' text n dev. fst (encode t w text n dev) = fst (encode t w' text n dev)) \<and>
      (\<forall>w w' out. fst (decode t w out) = fst (decode t w' out)))"

definition deterministic :: "'w model_components \<Rightarrow> bool" where
  "deterministic mc =
     ((case pipeline mc of None \<Rightarrow> True | Some f \<Rightarrow> deterministic_pipeline f) \<and>
      (case model mc of None \<Rightarrow> True | Some m \<Rightarrow> deterministic_model m) \<and>
      (case tokenizer mc of None \<Rightarrow> True | Some t \<Rightarrow> deterministic_tokenizer t))"

subsection \<open>Example inputs\<close>

text \<open>
  What \<^verbatim>\<open>load_model_components\<close> returns for an extractive model:
  \<^verbatim>\<open>{"pipeline": qa_pipeline, "model": None, "tokenizer": None}\<close>.
\<close>

definition extractive :: "'w qa_pipeline \<Rightarrow> 'w model_components" where
  "extractive f = \<lparr>model = None, tokenizer = None, pipeline = Some f, device = None\<rparr>"

text \<open>
  A text of 900 characters. Its windows start at the offsets 0, 412 and 824 and have 512, 488
  and 76 characters.
\<close>

definition long_text :: string where
  "long_text = replicate 900 CHR ''a''"

text \<open>A pipeline that answers the three windows of \<open>long_text\<close> with three given outcomes.\<close>

definition by_window ::
  "(exn + scored list) \<Rightarrow> (exn + scored list) \<Rightarrow> (exn + scored list) \<Rightarrow> 'w qa_pipeline" where
  "by_window first second third =
     (\<lambda>w question chunk.
        (if length chunk = 512 then first else if length chunk = 488 then second else third, w))"

text \<open>
  A pipeline with a state of its own, the number of calls so far, whose answers do not depend
  on it.
\<close>

definition counting_pipeline :: "nat qa_pipeline" where
  "counting_pipeline =
     (\<lambda>n question chunk. (Inr [\<lparr>answer = Some (take 3 chunk), score = 1 / 2\<rparr>], Suc n))"


text \<open>
  Two objects that are not strings and have no truth value: a NumPy array and a Torch tensor
  with two elements.
\<close>

definition numpy_array :: doc where
  "numpy_array =
     DocOther (Inr ''[1 2]'')
       (Inl (Exception ''ValueError: The truth value of an array with more than one element is ambiguous.''))"

definition torch_tensor :: doc where
  "torch_tensor =
     DocOther (Inr ''tensor([1, 2])'')
       (Inl (Exception ''RuntimeError: Boolean value of Tensor with more than one value is ambiguous''))"

section \<open>Chunking\<close>

text \<open>
  The defining equation of \<open>py_range\<close> is recursive without a pattern; it is unfolded by
  hand.
\<close>

declare py_range.simps [simp del]

lemma ceil_step:
  assumes "0 < step" "i < stop"
  shows "Suc ((stop - (i + step) + step - 1) div step) = (stop - i + step - 1) div step"
proof (cases "i + step \<le> stop")
  case True
  have e1: "stop - (i + step) + step - 1 = stop - i - 1" using True by arith
  have e2: "stop - i + step - 1 = (stop - i - 1) + step" using assms by arith
  show ?thesis unfolding e1 e2 using assms(1) by simp
next
  case False
  have e1: "stop - (i + step) + step - 1 = step - 1" using False by arith
  have e2: "stop - i + step - 1 = (stop - i - 1) + step" using assms by arith
  have e3: "(stop - i - 1) div step = 0" using False assms by simp
  have e4: "(step - 1) div step = 0" using assms by simp
  show ?thesis unfolding e1 e2 using assms(1) e3 e4 by simp
qed

lemma py_range_length:
  "0 < step \<Longrightarrow> length (py_range i stop step) = (stop - i + step - 1) div step"
proof (induction i stop step rule: py_range.induct)
  case (1 i stop step)
  show ?case
  proof (cases "stop \<le> i")
    case True
    with "1.prems" show ?thesis by (subst py_range.simps) simp
  next
    case False
    with "1.prems" have IH: "length (py_range (i + step) stop step) = (stop - (i + step) + step - 1) div step"
      using "1.IH" by simp
    have "length (py_range i stop step) = Suc ((stop - (i + step) + step - 1) div step)"
      using False "1.prems" IH by (subst py_range.simps) simp
    also have "\<dots> = (stop - i + step - 1) div step"
      using ceil_step [of step i stop] "1.prems" False by simp
    finally show ?thesis .
  qed
qed

lemma ceil_div_nat:
  assumes "0 < s"
  shows "\<lceil>real L / real s\<rceil> = int ((L + s - 1) div s)"
proof (rule ceiling_unique)
  let ?q = "(L + s - 1) div s"
  have up: "L + s - 1 < ?q * s + s"
    using assms dividend_less_div_times [of s "L + s - 1"] by (simp add: mult.commute add.commute)
  have lo: "?q * s \<le> L + s - 1" by simp
  from up have "L \<le> ?q * s" by arith
  then have "real L \<le> real (?q * s)" by (rule iffD2[OF of_nat_le_iff])
  then show "real L / real s \<le> of_int (int ?q)" using assms
    by (simp add: pos_divide_le_eq)
  from lo have "int (?q * s) \<le> int (L + s - 1)" by (simp only: of_nat_le_iff)
  moreover have "int (L + s - 1) = int L + int s - 1" using assms by (simp add: of_nat_diff)
  ultimately have "int ?q * int s - int s < int L" by simp
  then have "real_of_int (int ?q * int s - int s) < real_of_int (int L)" by (simp only: of_int_less_iff)
  then have "(real ?q - 1) * real s < real L" by (simp add: algebra_simps)
  then show "of_int (int ?q) - 1 < real L / real s" using assms
    by (simp add: pos_less_divide_eq)
qed

lemma py_range_nth:
  "k < length (py_range i stop step) \<Longrightarrow> py_range i stop step ! k = i + k * step"
proof (induction i stop step arbitrary: k rule: py_range.induct)
  case (1 i stop step)
  show ?case
  proof (cases "step = 0 \<or> stop \<le> i")
    case True
    with "1.prems" show ?thesis by (subst (asm) py_range.simps) simp
  next
    case False
    then have unf: "py_range i stop step = i # py_range (i + step) stop step"
      by (subst py_range.simps) simp
    show ?thesis
    proof (cases k)
      case 0
      then show ?thesis by (simp add: unf)
    next
      case (Suc j)
      with "1.prems" unf have "j < length (py_range (i + step) stop step)" by simp
      with "1.IH" False have "py_range (i + step) stop step ! j = i + step + j * step" by blast
      then show ?thesis by (simp add: unf Suc)
    qed
  qed
qed

lemma windows_length:
  "ov < wl \<Longrightarrow> length (windows wl ov text) = (length text + (wl - ov) - 1) div (wl - ov)"
  by (simp add: windows_def py_range_length)

lemma windows_nth:
  "k < length (windows wl ov text) \<Longrightarrow>
   windows wl ov text ! k = slice text (k * (wl - ov)) (k * (wl - ov) + wl)"
  by (simp add: windows_def py_range_nth)

lemma windows_start_less:
  assumes "ov < wl" "k < length (windows wl ov text)"
  shows "k * (wl - ov) < length text"
proof -
  let ?s = "wl - ov"
  from assms have "k < (length text + ?s - 1) div ?s" by (simp add: windows_length)
  then have "Suc k \<le> (length text + ?s - 1) div ?s" by simp
  then have "Suc k * ?s \<le> length text + ?s - 1"
    using assms(1) by (simp add: less_eq_div_iff_mult_less_eq)
  then show ?thesis using assms(1) by simp
qed

lemma length_slice: "length (slice s i j) = min (j - i) (length s - i)"
  by (simp add: slice_def)

lemma windows_nth_length:
  assumes "ov < wl" "k < length (windows wl ov text)"
  shows "length (windows wl ov text ! k) = min wl (length text - k * (wl - ov))"
  using assms by (simp add: windows_nth length_slice)

lemma windows_cover:
  assumes "ov < wl" "p < length text"
  shows "\<exists>k<length (windows wl ov text).
           k * (wl - ov) \<le> p \<and> p < k * (wl - ov) + length (windows wl ov text ! k)"
proof -
  let ?s = "wl - ov"
  let ?k = "p div ?s"
  have s: "0 < ?s" using assms(1) by simp
  have lo: "?k * ?s \<le> p" by simp
  have hi: "p < ?k * ?s + ?s" using s dividend_less_div_times [of ?s p] by (simp add: mult.commute add.commute)
  have "?k * ?s < length text" using lo assms(2) by (rule le_less_trans)
  then have "?k * ?s + ?s \<le> length text + ?s - 1" by arith
  then have "Suc ?k * ?s \<le> length text + ?s - 1" by (simp add: add.commute)
  then have "Suc ?k \<le> (length text + ?s - 1) div ?s"
    using s by (simp only: less_eq_div_iff_mult_less_eq)
  then have k: "?k < length (windows wl ov text)" using assms(1) by (simp add: windows_length)
  have "p < ?k * ?s + min wl (length text - ?k * ?s)"
  proof -
    define a where "a = ?k * ?s"
    have "a \<le> p" "p < a + ?s" using lo hi by (simp_all only: a_def)
    then have "p < a + min wl (length text - a)" using assms by arith
    then show ?thesis by (simp only: a_def)
  qed
  then have "p < ?k * ?s + length (windows wl ov text ! ?k)"
    using windows_nth_length [OF assms(1) k] by simp
  with k lo show ?thesis by blast
qed

lemma stride_pos: "overlap < max_chunk_len"
  by (simp add: overlap_def max_chunk_len_def)

lemma get_answer_extractive:
  "\<not> is_generative mc \<Longrightarrow> get_answer mc question pdf_text w = extractive_path mc question pdf_text w"
  by (simp add: get_answer_def is_generative_def split: option.splits)

lemma windows_not_Nil:
  assumes "s \<noteq> []"
  shows "windows max_chunk_len overlap s \<noteq> []"
proof -
  from assms have "0 < length s" by simp
  then obtain k where "k < length (windows max_chunk_len overlap s)"
    using windows_cover [OF stride_pos, of 0 s] by blast
  then show ?thesis by auto
qed

lemma make_chunks_none_iff:
  "make_chunks d = Inr [] \<longleftrightarrow>
     d = DocNone \<or> d = DocStr [] \<or> (\<exists>rendering b. d = DocOther rendering (Inr b))"
proof (cases d)
  case (DocStr s)
  then show ?thesis using windows_not_Nil [of s] by auto
next
  case (DocOther rendering truth)
  then show ?thesis by (cases truth) auto
qed simp

lemma make_chunks_raises_iff:
  "make_chunks d = Inl e \<longleftrightarrow> (\<exists>rendering. d = DocOther rendering (Inl e))"
proof (cases d)
  case (DocOther rendering truth)
  then show ?thesis by (cases truth) auto
qed simp_all

lemma make_chunks_windows:
  assumes "make_chunks d = Inr chunks" and "chunks \<noteq> []"
  shows "\<exists>s. d = DocStr s \<and> s \<noteq> [] \<and> chunks = windows max_chunk_len overlap s"
proof (cases d)
  case (DocStr s)
  with assms show ?thesis by (auto split: if_splits)
next
  case (DocOther rendering truth)
  with assms show ?thesis by (cases truth) auto
next
  case DocNone
  with assms show ?thesis by simp
qed

text \<open>
  C1, as the code has it. For a document text \<open>s\<close> of length \<open>L \<ge> 1\<close> the chunking step
  produces exactly \<open>\<lceil>L / (W - O)\<rceil>\<close> windows, with \<open>W = 512\<close> and \<open>O = 100\<close>; that is one
  window when \<open>L \<le> O\<close>. Window \<open>k\<close> is the slice of \<open>s\<close> that starts at offset
  \<open>k (W - O)\<close> and has at most \<open>W\<close> characters, and every position of \<open>[0, L)\<close> lies in
  the range of some window.
\<close>

theorem chunking_count_and_cover:
  assumes "s \<noteq> []"
  shows "\<exists>chunks. make_chunks (DocStr s) = Inr chunks
       \<and> int (length chunks) = \<lceil>real (length s) / real (max_chunk_len - overlap)\<rceil>
       \<and> (length s \<le> overlap \<longrightarrow> length chunks = 1)
       \<and> (\<forall>k<length chunks.
             chunks ! k =
               slice s (k * (max_chunk_len - overlap)) (k * (max_chunk_len - overlap) + max_chunk_len)
             \<and> length (chunks ! k) \<le> max_chunk_len)
       \<and> (\<forall>p<length s. \<exists>k<length chunks.
             k * (max_chunk_len - overlap) \<le> p
             \<and> p < k * (max_chunk_len - overlap) + length (chunks ! k))"
proof -
  let ?cs = "windows max_chunk_len overlap s"
  let ?st = "max_chunk_len - overlap"
  have cs: "make_chunks (DocStr s) = Inr ?cs" using assms by simp
  have st: "0 < ?st" using stride_pos by simp
  have len: "length ?cs = (length s + ?st - 1) div ?st" by (rule windows_length [OF stride_pos])
  have a: "int (length ?cs) = \<lceil>real (length s) / real ?st\<rceil>"
    unfolding len by (rule ceil_div_nat [OF st, symmetric])
  have b: "length s \<le> overlap \<longrightarrow> length ?cs = 1"
  proof
    assume "length s \<le> overlap"
    moreover have "0 < length s" using assms by simp
    ultimately have "length s + 412 - 1 < 2 * 412" "412 \<le> length s + 412 - 1"
      unfolding overlap_def by arith+
    then have "(length s + 412 - 1) div 412 = 1" by arith
    then show "length ?cs = 1" unfolding len
      by (simp add: max_chunk_len_def overlap_def)
  qed
  have c: "\<forall>k<length ?cs. ?cs ! k = slice s (k * ?st) (k * ?st + max_chunk_len)
             \<and> length (?cs ! k) \<le> max_chunk_len"
    using windows_nth [of _ max_chunk_len overlap s] windows_nth_length [OF stride_pos, of _ s]
    by simp
  have d: "\<forall>p<length s. \<exists>k<length ?cs. k * ?st \<le> p \<and> p < k * ?st + length (?cs ! k)"
    using windows_cover [OF stride_pos] by blast
  from cs a b c d show ?thesis by blast
qed

text \<open>
  A text of 900 characters: three windows, the last one the 76 characters from offset 824.
\<close>

theorem chunking_count_and_cover_witness:
  "replicate 900 CHR ''a'' \<noteq> []
   \<and> make_chunks (DocStr (replicate 900 CHR ''a'')) =
       Inr [replicate 512 CHR ''a'', replicate 488 CHR ''a'', replicate 76 CHR ''a'']
   \<and> \<lceil>real (length (replicate 900 CHR ''a'')) / real (max_chunk_len - overlap)\<rceil> = 3
   \<and> (2::nat) < length [replicate 512 CHR ''a'', replicate 488 CHR ''a'', replicate 76 CHR ''a'']
   \<and> (899::nat) < length (replicate 900 CHR ''a'')"
  using chunking_count_and_cover [of "replicate 900 CHR ''a''"]
  by (simp add: max_chunk_len_def overlap_def slice_def windows_def py_range.simps)

text \<open>
  C1, as the claim states the count: \<open>\<lceil>(L - O) / (W - O)\<rceil>\<close> windows when \<open>L > O\<close>. A text
  of 413 characters has \<open>L > O\<close> and \<open>\<lceil>(413 - 100) / 412\<rceil> = 1\<close>, and the loop produces two
  windows, the second one the single character at offset 412.
\<close>

theorem chunking_count_counterexample:
  "make_chunks (DocStr (replicate 413 CHR ''a'')) = Inr [replicate 413 CHR ''a'', replicate 1 CHR ''a'']
   \<and> length [replicate 413 CHR ''a'', replicate 1 CHR ''a''] = 2
   \<and> overlap < length (replicate 413 CHR ''a'')
   \<and> \<lceil>(real (length (replicate 413 CHR ''a'')) - real overlap) / (real max_chunk_len - real overlap)\<rceil> = 1"
  by (simp add: windows_def slice_def max_chunk_len_def overlap_def py_range.simps)

section \<open>The loop over the windows\<close>

lemma foldl_invariant:
  assumes "P st" and "\<And>st c. c \<in> set cs \<Longrightarrow> P st \<Longrightarrow> P (f st c)"
  shows "P (foldl f st cs)"
  using assms by (induction cs arbitrary: st) simp_all

lemma process_chunk_cases:
  obtains
    (absent) "qa = None"
      "process_chunk qa question st chunk =
         st\<lparr>trace := trace st @
              [Print ''Error processing a chunk: 'NoneType' object is not callable'']\<rparr>"
  | (returned) f results w' where "qa = Some f" "f (world st) question chunk = (Inr results, w')"
      "process_chunk qa question st chunk =
         \<lparr>trace = trace st @ [PipelineCall question chunk (Inr results)],
          all_candidates = all_candidates st @ map (annotate chunk) results, world = w'\<rparr>"
  | (raised) f msg w' where "qa = Some f"
      "f (world st) question chunk = (Inl (Exception msg), w')"
      "process_chunk qa question st chunk =
         \<lparr>trace = trace st @ [PipelineCall question chunk (Inl (Exception msg)),
                              Print (''Error processing a chunk: '' @ msg)],
          all_candidates = all_candidates st, world = w'\<rparr>"
proof (cases qa)
  case None
  then show ?thesis using absent by (simp add: process_chunk_def)
next
  case (Some f)
  obtain out w' where call: "f (world st) question chunk = (out, w')" by (cases "f (world st) question chunk")
  show ?thesis
  proof (cases out)
    case (Inl e)
    obtain msg where "e = Exception msg" by (cases e)
    with Some call Inl show ?thesis using raised by (simp add: process_chunk_def)
  next
    case (Inr results)
    with Some call show ?thesis using returned by (simp add: process_chunk_def)
  qed
qed

lemma pooled_append: "pooled (xs @ ys) = pooled xs @ pooled ys"
  by (simp add: pooled_def)

lemma process_chunk_trace_extends:
  "\<exists>t. trace (process_chunk qa question st chunk) = trace st @ t"
  by (rule process_chunk_cases [where qa = qa and question = question and st = st and chunk = chunk]) simp_all

lemma score_chunks_trace_starts:
  "\<exists>t. trace (score_chunks qa question chunks w) = Spinner_Searching (length chunks) # t"
proof -
  let ?P = "\<lambda>st. \<exists>t. trace st = Spinner_Searching (length chunks) # t"
  have "?P (foldl (process_chunk qa question)
             \<lparr>trace = [Spinner_Searching (length chunks)], all_candidates = [], world = w\<rparr> chunks)"
  proof (rule foldl_invariant)
    show "?P \<lparr>trace = [Spinner_Searching (length chunks)], all_candidates = [], world = w\<rparr>" by simp
  next
    fix st :: "'a loop_state" and c
    assume "?P st"
    then obtain t where "trace st = Spinner_Searching (length chunks) # t" by blast
    moreover obtain t' where "trace (process_chunk qa question st c) = trace st @ t'"
      using process_chunk_trace_extends by blast
    ultimately show "?P (process_chunk qa question st c)" by simp
  qed
  then show ?thesis by (simp add: score_chunks_def)
qed

lemma process_chunk_pooled:
  "all_candidates st = pooled (trace st) \<Longrightarrow>
   all_candidates (process_chunk qa question st chunk) = pooled (trace (process_chunk qa question st chunk))"
  by (rule process_chunk_cases [where qa = qa and question = question and st = st and chunk = chunk]) (simp_all add: pooled_def)

lemma score_chunks_pooled:
  "all_candidates (score_chunks qa question chunks w) = pooled (trace (score_chunks qa question chunks w))"
  unfolding score_chunks_def
  by (rule foldl_invariant) (simp_all add: pooled_def process_chunk_pooled [unfolded pooled_def])

section \<open>Selection\<close>

lemma foldl_first_max:
  fixes key :: "'a \<Rightarrow> real"
  shows "\<exists>k<length (x # rest).
           foldl (\<lambda>best y. if key best < key y then y else best) x rest = (x # rest) ! k
         \<and> (\<forall>j<length (x # rest). key ((x # rest) ! j) \<le> key ((x # rest) ! k))
         \<and> (\<forall>j<k. key ((x # rest) ! j) < key ((x # rest) ! k))"
proof (induction rest rule: rev_induct)
  case Nil
  show ?case by simp
next
  case (snoc y ys)
  let ?step = "\<lambda>best y. if key best < key y then y else best"
  let ?xs = "x # ys"
  from snoc obtain k where k: "k < length ?xs" "foldl ?step x ys = ?xs ! k"
    and le: "\<forall>j<length ?xs. key (?xs ! j) \<le> key (?xs ! k)"
    and lt: "\<forall>j<k. key (?xs ! j) < key (?xs ! k)" by blast
  have app: "x # ys @ [y] = ?xs @ [y]" by simp
  have old: "\<And>j. j < length ?xs \<Longrightarrow> (?xs @ [y]) ! j = ?xs ! j" by (simp only: nth_append if_True)
  have new: "(?xs @ [y]) ! length ?xs = y" by (simp only: nth_append_length)
  have split: "\<And>j. j < length (?xs @ [y]) \<Longrightarrow> j < length ?xs \<or> j = length ?xs" by auto
  show ?case
  proof (cases "key (?xs ! k) < key y")
    case True
    have "foldl ?step x (ys @ [y]) = (?xs @ [y]) ! length ?xs" using k True new by simp
    moreover have "\<forall>j<length (?xs @ [y]). key ((?xs @ [y]) ! j) \<le> key ((?xs @ [y]) ! length ?xs)"
    proof (intro allI impI)
      fix j assume "j < length (?xs @ [y])"
      then consider "j < length ?xs" | "j = length ?xs" using split by blast
      then show "key ((?xs @ [y]) ! j) \<le> key ((?xs @ [y]) ! length ?xs)"
      proof cases
        case 1
        then have "key (?xs ! j) \<le> key (?xs ! k)" using le by blast
        then show ?thesis using True old [OF 1] new by simp
      next
        case 2
        then show ?thesis by simp
      qed
    qed
    moreover have "\<forall>j<length ?xs. key ((?xs @ [y]) ! j) < key ((?xs @ [y]) ! length ?xs)"
    proof (intro allI impI)
      fix j assume j: "j < length ?xs"
      then have "key (?xs ! j) \<le> key (?xs ! k)" using le by blast
      then show "key ((?xs @ [y]) ! j) < key ((?xs @ [y]) ! length ?xs)"
        using True old [OF j] new by simp
    qed
    moreover have "length ?xs < length (?xs @ [y])" by simp
    ultimately show ?thesis unfolding app by blast
  next
    case False
    have "foldl ?step x (ys @ [y]) = (?xs @ [y]) ! k" using k False old [OF k(1)] by simp
    moreover have "\<forall>j<length (?xs @ [y]). key ((?xs @ [y]) ! j) \<le> key ((?xs @ [y]) ! k)"
    proof (intro allI impI)
      fix j assume "j < length (?xs @ [y])"
      then consider "j < length ?xs" | "j = length ?xs" using split by blast
      then show "key ((?xs @ [y]) ! j) \<le> key ((?xs @ [y]) ! k)"
      proof cases
        case 1
        then show ?thesis using le old [OF 1] old [OF k(1)] by simp
      next
        case 2
        then show ?thesis using False new old [OF k(1)] by simp
      qed
    qed
    moreover have "\<forall>j<k. key ((?xs @ [y]) ! j) < key ((?xs @ [y]) ! k)"
    proof (intro allI impI)
      fix j assume j: "j < k"
      then have "j < length ?xs" using k(1) by simp
      then show "key ((?xs @ [y]) ! j) < key ((?xs @ [y]) ! k)"
        using lt j old [OF k(1)] old [of j] by simp
    qed
    moreover have "k < length (?xs @ [y])" using k(1) by simp
    ultimately show ?thesis unfolding app by blast
  qed
qed

lemma py_max_first:
  fixes key :: "'a \<Rightarrow> real"
  assumes "xs \<noteq> []"
  shows "\<exists>k<length xs. py_max key xs = Inr (xs ! k)
           \<and> (\<forall>j<length xs. key (xs ! j) \<le> key (xs ! k))
           \<and> (\<forall>j<k. key (xs ! j) < key (xs ! k))"
proof -
  from assms obtain x rest where xs: "xs = x # rest" by (cases xs) auto
  show ?thesis unfolding xs using foldl_first_max [of x rest key] by (simp add: py_max_def)
qed

lemma valid_candidates_valid:
  "c \<in> set (valid_candidates cands) \<Longrightarrow> c \<in> set cands \<and> (\<exists>a. answer c = Some a \<and> a \<noteq> [])"
  by (auto simp: valid_candidates_def split: option.splits)

lemma select_answer_none:
  "valid_candidates cands = [] \<Longrightarrow> select_answer cands = Inr no_confident_answer"
  by (simp add: select_answer_def)

lemma select_answer_best:
  assumes "valid_candidates cands \<noteq> []"
  shows "\<exists>k<length (valid_candidates cands).
           (\<forall>j<length (valid_candidates cands).
              score (valid_candidates cands ! j) \<le> score (valid_candidates cands ! k))
         \<and> (\<forall>j<k. score (valid_candidates cands ! j) < score (valid_candidates cands ! k))
         \<and> (\<exists>a. answer (valid_candidates cands ! k) = Some a \<and> a \<noteq> []
                \<and> select_answer cands =
                    Inr \<lparr>res_answer = a, res_score = score (valid_candidates cands ! k),
                         res_context = context' (valid_candidates cands ! k)\<rparr>)"
proof -
  let ?v = "valid_candidates cands"
  from py_max_first [OF assms, of score] obtain k where k: "k < length ?v"
    and best: "py_max score ?v = Inr (?v ! k)"
    and le: "\<forall>j<length ?v. score (?v ! j) \<le> score (?v ! k)"
    and lt: "\<forall>j<k. score (?v ! j) < score (?v ! k)" by blast
  from k have "?v ! k \<in> set ?v" by simp
  then obtain a where a: "answer (?v ! k) = Some a" "a \<noteq> []"
    using valid_candidates_valid by blast
  have "select_answer cands =
          Inr \<lparr>res_answer = a, res_score = score (?v ! k), res_context = context' (?v ! k)\<rparr>"
    using assms best a by (simp add: select_answer_def Let_def)
  with k le lt a show ?thesis by blast
qed

lemma select_answer_returns: "\<exists>r. select_answer cands = Inr r"
proof (cases "valid_candidates cands = []")
  case True
  then show ?thesis by (simp add: select_answer_none)
next
  case False
  from select_answer_best [OF this] show ?thesis by blast
qed

section \<open>Runs of the extractive path\<close>

lemma extractive_raises:
  assumes "\<not> is_generative mc" "make_chunks pdf_text = Inl e"
  shows "get_answer mc question pdf_text w = (([], Inl e), w)"
  using assms by (simp add: get_answer_extractive extractive_path_def)

lemma extractive_no_windows:
  assumes "\<not> is_generative mc" "make_chunks pdf_text = Inr []"
  shows "get_answer mc question pdf_text w = (([], Inr empty_document), w)"
  using assms by (simp add: get_answer_extractive extractive_path_def)

lemma extractive_windows:
  assumes "\<not> is_generative mc" "make_chunks pdf_text = Inr chunks" "chunks \<noteq> []"
  shows "events_of (get_answer mc question pdf_text w) =
           trace (score_chunks (pipeline mc) question chunks w)"
    and "outcome_of (get_answer mc question pdf_text w) =
           select_answer (pooled (events_of (get_answer mc question pdf_text w)))"
  using assms
  by (simp_all add: get_answer_extractive extractive_path_def Let_def score_chunks_pooled)

lemma extractive_windows_events:
  assumes "\<not> is_generative mc" "make_chunks pdf_text = Inr chunks" "chunks \<noteq> []"
  shows "events_of (get_answer mc question pdf_text w) \<noteq> []"
proof -
  obtain t where "trace (score_chunks (pipeline mc) question chunks w) =
      Spinner_Searching (length chunks) # t"
    using score_chunks_trace_starts [of "pipeline mc" question chunks w] by blast
  then show ?thesis using extractive_windows(1) [OF assms, of question w] by simp
qed

lemma extractive_events_windows:
  assumes "\<not> is_generative mc" "events_of (get_answer mc question pdf_text w) \<noteq> []"
  shows "\<exists>chunks. make_chunks pdf_text = Inr chunks \<and> chunks \<noteq> []"
proof (cases "make_chunks pdf_text")
  case (Inl e)
  from extractive_raises [OF assms(1) this, of question w] assms(2) show ?thesis by simp
next
  case (Inr chunks)
  show ?thesis
  proof (cases "chunks = []")
    case True
    with Inr have "make_chunks pdf_text = Inr []" by simp
    from extractive_no_windows [OF assms(1) this, of question w] assms(2) show ?thesis by simp
  next
    case False
    with Inr show ?thesis by blast
  qed
qed

section \<open>The claims about the extractive path\<close>

text \<open>The definitions a concrete run is evaluated with.\<close>

lemmas run_defs =
  get_answer_def extractive_path_def score_chunks_def process_chunk_def select_answer_def
  valid_candidates_def py_max_def windows_def py_range.simps slice_def annotate_def pooled_def
  is_generative_def max_chunk_len_def overlap_def Let_def extractive_def long_text_def
  by_window_def empty_document_def no_confident_answer_def

lemma pooled_member:
  assumes "c \<in> set (pooled tr)"
  shows "\<exists>q chunk results r. PipelineCall q chunk (Inr results) \<in> set tr \<and> r \<in> set results
           \<and> c = annotate chunk r"
proof -
  from assms obtain e where e: "e \<in> set tr" "c \<in> set (event_candidates e)"
    by (auto simp: pooled_def)
  show ?thesis
  proof (cases e)
    case (PipelineCall q chunk out)
    with e show ?thesis by (cases out) auto
  qed (use e in simp_all)
qed

lemma pooled_intro:
  "PipelineCall q chunk (Inr results) \<in> set tr \<Longrightarrow> r \<in> set results \<Longrightarrow>
   annotate chunk r \<in> set (pooled tr)"
  by (force simp: pooled_def)

lemma make_chunks_member:
  assumes "make_chunks pdf_text = Inr chunks" and "chunk \<in> set chunks"
  shows "\<exists>s k. pdf_text = DocStr s \<and> s \<noteq> [] \<and> k < length chunks \<and> chunks ! k = chunk
           \<and> k * (max_chunk_len - overlap) < length s
           \<and> chunk = slice s (k * (max_chunk_len - overlap))
                             (k * (max_chunk_len - overlap) + max_chunk_len)"
proof -
  from assms(2) have "chunks \<noteq> []" by auto
  from make_chunks_windows [OF assms(1) this] obtain s where s: "pdf_text = DocStr s" "s \<noteq> []"
    and cs: "chunks = windows max_chunk_len overlap s" by blast
  from assms(2) obtain k where k: "k < length chunks" "chunks ! k = chunk"
    by (auto simp: in_set_conv_nth)
  then have "chunk = slice s (k * (max_chunk_len - overlap))
                             (k * (max_chunk_len - overlap) + max_chunk_len)"
    using windows_nth [of k max_chunk_len overlap s] cs by simp
  moreover have "k * (max_chunk_len - overlap) < length s"
    using windows_start_less [OF stride_pos, of k s] k cs by simp
  ultimately show ?thesis using s k by blast
qed

lemma slice_nonempty: "i < length s \<Longrightarrow> 0 < w \<Longrightarrow> slice s i (i + w) \<noteq> []"
  by (simp add: slice_def)

lemma slice_substring: "s = take i s @ slice s i (i + w) @ drop (i + w) s"
proof -
  have "drop i s = take w (drop i s) @ drop w (drop i s)" by (simp only: append_take_drop_id)
  then have "s = take i s @ take w (drop i s) @ drop w (drop i s)"
    by (metis append_take_drop_id)
  then show ?thesis by (simp add: slice_def add.commute)
qed

text \<open>
  C10, as the code has it. For a non-empty string the chunking loop produces at least one
  window; every window starts at an offset strictly below the length of the text, is not
  empty, and is the part of the text that begins at that offset. The loop ends with no window
  exactly when \<^verbatim>\<open>pdf_text\<close> is \<^verbatim>\<open>None\<close>, the empty string, or an object that is not a
  string and whose truth value is defined, and on the extractive path the zero-windows
  branch, which returns the "document appears to be empty" result without any event, is taken
  in exactly these cases.
\<close>

theorem windows_nonempty:
  "(s \<noteq> [] \<longrightarrow>
      (\<exists>chunks. make_chunks (DocStr s) = Inr chunks \<and> chunks \<noteq> []
         \<and> (\<forall>k<length chunks.
               k * (max_chunk_len - overlap) < length s
               \<and> chunks ! k \<noteq> []
               \<and> (\<exists>before after. length before = k * (max_chunk_len - overlap)
                     \<and> s = before @ chunks ! k @ after))))
   \<and> (make_chunks pdf_text = Inr [] \<longleftrightarrow>
        pdf_text = DocNone \<or> pdf_text = DocStr []
        \<or> (\<exists>rendering b. pdf_text = DocOther rendering (Inr b)))
   \<and> (\<not> is_generative mc \<longrightarrow>
        (get_answer mc question pdf_text w = (([], Inr empty_document), w) \<longleftrightarrow>
         pdf_text = DocNone \<or> pdf_text = DocStr []
         \<or> (\<exists>rendering b. pdf_text = DocOther rendering (Inr b))))"
proof (intro conjI impI)
  assume ne: "s \<noteq> []"
  let ?cs = "windows max_chunk_len overlap s"
  have cs: "make_chunks (DocStr s) = Inr ?cs" using ne by simp
  have "\<forall>k<length ?cs.
            k * (max_chunk_len - overlap) < length s
            \<and> ?cs ! k \<noteq> []
            \<and> (\<exists>before after. length before = k * (max_chunk_len - overlap)
                  \<and> s = before @ ?cs ! k @ after)"
  proof (intro allI impI)
    fix k assume k: "k < length ?cs"
    let ?i = "k * (max_chunk_len - overlap)"
    have start: "?i < length s" by (rule windows_start_less [OF stride_pos k])
    have nth: "?cs ! k = slice s ?i (?i + max_chunk_len)" by (rule windows_nth [OF k])
    have "slice s ?i (?i + max_chunk_len) \<noteq> []"
      using start by (rule slice_nonempty) (simp add: max_chunk_len_def)
    moreover have "length (take ?i s) = ?i" using start by simp
    moreover have "s = take ?i s @ slice s ?i (?i + max_chunk_len) @ drop (?i + max_chunk_len) s"
      by (rule slice_substring)
    ultimately show "?i < length s \<and> ?cs ! k \<noteq> []
            \<and> (\<exists>before after. length before = ?i \<and> s = before @ ?cs ! k @ after)"
      using start unfolding nth by blast
  qed
  with cs windows_not_Nil [OF ne]
  show "\<exists>chunks. make_chunks (DocStr s) = Inr chunks \<and> chunks \<noteq> []
         \<and> (\<forall>k<length chunks.
               k * (max_chunk_len - overlap) < length s
               \<and> chunks ! k \<noteq> []
               \<and> (\<exists>before after. length before = k * (max_chunk_len - overlap)
                     \<and> s = before @ chunks ! k @ after))" by blast
next
  show "make_chunks pdf_text = Inr [] \<longleftrightarrow>
        pdf_text = DocNone \<or> pdf_text = DocStr []
        \<or> (\<exists>rendering b. pdf_text = DocOther rendering (Inr b))"
    by (rule make_chunks_none_iff)
next
  assume ex: "\<not> is_generative mc"
  show "get_answer mc question pdf_text w = (([], Inr empty_document), w) \<longleftrightarrow>
         pdf_text = DocNone \<or> pdf_text = DocStr []
         \<or> (\<exists>rendering b. pdf_text = DocOther rendering (Inr b))"
  proof
    assume run: "get_answer mc question pdf_text w = (([], Inr empty_document), w)"
    have "make_chunks pdf_text = Inr []"
    proof (cases "make_chunks pdf_text")
      case (Inl e)
      from extractive_raises [OF ex this, of question w] run show ?thesis by simp
    next
      case (Inr chunks)
      show ?thesis
      proof (cases "chunks = []")
        case True
        with Inr show ?thesis by simp
      next
        case False
        from extractive_windows_events [OF ex Inr False, of question w] run
        show ?thesis by simp
      qed
    qed
    then show "pdf_text = DocNone \<or> pdf_text = DocStr []
         \<or> (\<exists>rendering b. pdf_text = DocOther rendering (Inr b))"
      by (simp only: make_chunks_none_iff)
  next
    assume "pdf_text = DocNone \<or> pdf_text = DocStr []
         \<or> (\<exists>rendering b. pdf_text = DocOther rendering (Inr b))"
    then have "make_chunks pdf_text = Inr []" by (simp only: make_chunks_none_iff)
    then show "get_answer mc question pdf_text w = (([], Inr empty_document), w)"
      by (rule extractive_no_windows [OF ex])
  qed
qed

text \<open>
  The 900-character text has a third window, which is not empty; its run is not the
  zero-windows branch, and the runs on the empty string and on the number 0 are.
\<close>

theorem windows_nonempty_witness:
  "long_text \<noteq> []
   \<and> make_chunks (DocStr long_text) =
       Inr [replicate 512 CHR ''a'', replicate 488 CHR ''a'', replicate 76 CHR ''a'']
   \<and> (2::nat) < length [replicate 512 CHR ''a'', replicate 488 CHR ''a'', replicate 76 CHR ''a'']
   \<and> 2 * (max_chunk_len - overlap) < length long_text
   \<and> \<not> is_generative (extractive (by_window (Inr []) (Inr []) (Inr [])))
   \<and> get_answer (extractive (by_window (Inr []) (Inr []) (Inr []))) ''q'' (DocStr long_text) ()
       \<noteq> (([], Inr empty_document), ())
   \<and> get_answer (extractive (by_window (Inr []) (Inr []) (Inr []))) ''q'' (DocStr []) ()
       = (([], Inr empty_document), ())
   \<and> get_answer (extractive (by_window (Inr []) (Inr []) (Inr []))) ''q''
        (DocOther (Inr ''0'') (Inr False)) ()
       = (([], Inr empty_document), ())"
  using windows_nonempty [of long_text "DocStr long_text"
      "extractive (by_window (Inr []) (Inr []) (Inr []))" "''q''" "()"]
    windows_nonempty [of long_text "DocStr []"
      "extractive (by_window (Inr []) (Inr []) (Inr []))" "''q''" "()"]
    windows_nonempty [of long_text "DocOther (Inr ''0'') (Inr False)"
      "extractive (by_window (Inr []) (Inr []) (Inr []))" "''q''" "()"]
  by (simp add: run_defs)

text \<open>
  C10, as the claim states the last part: the zero-windows branch is reached for every
  \<^verbatim>\<open>pdf_text\<close> that is not a string. A Torch tensor with two elements is not a string; the
  test of line 84 takes its truth value, which raises, so the branch is not reached and
  \<^verbatim>\<open>get_answer\<close> raises.
\<close>

theorem zero_windows_branch_counterexample:
  "torch_tensor \<noteq> DocNone
   \<and> format_doc torch_tensor = Inr ''tensor([1, 2])''
   \<and> \<not> is_generative (extractive (by_window (Inr []) (Inr []) (Inr [])))
   \<and> get_answer (extractive (by_window (Inr []) (Inr []) (Inr []))) ''q'' torch_tensor ()
       \<noteq> (([], Inr empty_document), ())
   \<and> get_answer (extractive (by_window (Inr []) (Inr []) (Inr []))) ''q'' torch_tensor ()
       = (([], Inl (Exception
            ''RuntimeError: Boolean value of Tensor with more than one value is ambiguous'')), ())"
  by (simp add: run_defs torch_tensor_def)

text \<open>
  C4, as the code has it. On the extractive path, a \<^verbatim>\<open>pdf_text\<close> that is the empty
  string, \<^verbatim>\<open>None\<close>, or an object that is not a string and whose truth value is defined
  makes \<^verbatim>\<open>get_answer\<close> return (not raise) the result with score 0, context
  \<^verbatim>\<open>"N/A"\<close> and the answer "The document appears to be empty.", with no event at all, hence
  without a single call of the pipeline, and with the world unchanged.
\<close>

theorem empty_document_short_circuit:
  assumes "\<not> is_generative mc"
    and "pdf_text = DocNone \<or> pdf_text = DocStr []
         \<or> (\<exists>rendering b. pdf_text = DocOther rendering (Inr b))"
  shows "get_answer mc question pdf_text w =
           (([], Inr \<lparr>res_answer = ''The document appears to be empty.'', res_score = 0,
                     res_context = ''N/A''\<rparr>), w)
       \<and> pipeline_calls (events_of (get_answer mc question pdf_text w)) = []"
proof -
  from assms(2) have "make_chunks pdf_text = Inr []" by (simp only: make_chunks_none_iff)
  from extractive_no_windows [OF assms(1) this, of question w]
  show ?thesis by (simp add: empty_document_def pipeline_calls_def)
qed

text \<open>
  \<^verbatim>\<open>None\<close>, the empty string, the number 42 (true) and the empty list (false), with a
  pipeline that would answer.
\<close>

theorem empty_document_short_circuit_witness:
  "\<not> is_generative
       (extractive (by_window (Inr [\<lparr>answer = Some ''x'', score = 1\<rparr>]) (Inr []) (Inr [])) ::
          unit model_components)
   \<and> get_answer (extractive (by_window (Inr [\<lparr>answer = Some ''x'', score = 1\<rparr>]) (Inr []) (Inr [])))
        ''q'' DocNone () =
      (([], Inr \<lparr>res_answer = ''The document appears to be empty.'', res_score = 0,
                res_context = ''N/A''\<rparr>), ())
   \<and> get_answer (extractive (by_window (Inr [\<lparr>answer = Some ''x'', score = 1\<rparr>]) (Inr []) (Inr [])))
        ''q'' (DocStr []) () =
      (([], Inr \<lparr>res_answer = ''The document appears to be empty.'', res_score = 0,
                res_context = ''N/A''\<rparr>), ())
   \<and> get_answer (extractive (by_window (Inr [\<lparr>answer = Some ''x'', score = 1\<rparr>]) (Inr []) (Inr [])))
        ''q'' (DocOther (Inr ''42'') (Inr True)) () =
      (([], Inr \<lparr>res_answer = ''The document appears to be empty.'', res_score = 0,
                res_context = ''N/A''\<rparr>), ())
   \<and> get_answer (extractive (by_window (Inr [\<lparr>answer = Some ''x'', score = 1\<rparr>]) (Inr []) (Inr [])))
        ''q'' (DocOther (Inr ''[]'') (Inr False)) () =
      (([], Inr \<lparr>res_answer = ''The document appears to be empty.'', res_score = 0,
                res_context = ''N/A''\<rparr>), ())"
proof -
  let ?mc = "extractive (by_window (Inr [\<lparr>answer = Some ''x'', score = 1\<rparr>]) (Inr []) (Inr [])) ::
    unit model_components"
  have ext: "\<not> is_generative ?mc" by (simp add: is_generative_def extractive_def)
  have none: "DocNone = DocNone \<or> DocNone = DocStr []
      \<or> (\<exists>rendering b. DocNone = DocOther rendering (Inr b))" by simp
  have empty: "DocStr [] = DocNone \<or> DocStr [] = DocStr []
      \<or> (\<exists>rendering b. DocStr [] = DocOther rendering (Inr b))" by simp
  have number: "DocOther (Inr ''42'') (Inr True) = DocNone
      \<or> DocOther (Inr ''42'') (Inr True) = DocStr []
      \<or> (\<exists>rendering b. DocOther (Inr ''42'') (Inr True) = DocOther rendering (Inr b))" by blast
  have list: "DocOther (Inr ''[]'') (Inr False) = DocNone
      \<or> DocOther (Inr ''[]'') (Inr False) = DocStr []
      \<or> (\<exists>rendering b. DocOther (Inr ''[]'') (Inr False) = DocOther rendering (Inr b))" by blast
  note a = empty_document_short_circuit [OF ext none, of "''q''" "()", THEN conjunct1]
  note b = empty_document_short_circuit [OF ext empty, of "''q''" "()", THEN conjunct1]
  note c = empty_document_short_circuit [OF ext number, of "''q''" "()", THEN conjunct1]
  note d = empty_document_short_circuit [OF ext list, of "''q''" "()", THEN conjunct1]
  show ?thesis by (intro conjI ext a b c d)
qed

text \<open>
  C4, as the claim states it, for every \<^verbatim>\<open>pdf_text\<close> that is not a string. A NumPy array
  with two elements is not a string; the test of line 84 takes its truth value, which raises
  \<^verbatim>\<open>ValueError\<close>, and \<^verbatim>\<open>get_answer\<close> raises it instead of returning the result for an
  empty document.
\<close>

theorem non_string_counterexample:
  "numpy_array \<noteq> DocNone
   \<and> format_doc numpy_array = Inr ''[1 2]''
   \<and> \<not> is_generative (extractive (by_window (Inr [\<lparr>answer = Some ''x'', score = 1\<rparr>]) (Inr []) (Inr [])))
   \<and> outcome_of (get_answer
        (extractive (by_window (Inr [\<lparr>answer = Some ''x'', score = 1\<rparr>]) (Inr []) (Inr [])))
        ''q'' numpy_array ()) =
      Inl (Exception
        ''ValueError: The truth value of an array with more than one element is ambiguous.'')"
  by (simp add: run_defs numpy_array_def)

text \<open>
  C5. On the extractive path, for a non-empty text, if no pipeline call gives a candidate
  with a non-empty answer (each call raises, returns nothing, or returns candidates whose
  answer is missing or empty), the filtered pool is empty and \<^verbatim>\<open>get_answer\<close> returns, and
  does not raise, the result with score 0, context \<^verbatim>\<open>"N/A"\<close> and the answer "Sorry, I
  couldn't find a confident answer in the document.".
\<close>

theorem no_usable_candidate:
  assumes "\<not> is_generative mc" and "pdf_text = DocStr s" and "s \<noteq> []"
    and "\<forall>q chunk results r.
           PipelineCall q chunk (Inr results) \<in> set (events_of (get_answer mc question pdf_text w))
           \<longrightarrow> r \<in> set results \<longrightarrow> answer r = None \<or> answer r = Some []"
  shows "valid_candidates (pooled (events_of (get_answer mc question pdf_text w))) = []
       \<and> outcome_of (get_answer mc question pdf_text w) =
           Inr \<lparr>res_answer = ''Sorry, I couldn't find a confident answer in the document.'',
                res_score = 0, res_context = ''N/A''\<rparr>"
proof -
  let ?tr = "events_of (get_answer mc question pdf_text w)"
  have chunks: "make_chunks pdf_text = Inr (windows max_chunk_len overlap s)"
    using assms(2,3) by simp
  have windows: "windows max_chunk_len overlap s \<noteq> []" by (rule windows_not_Nil [OF assms(3)])
  have "valid_candidates (pooled ?tr) = []"
  proof (rule ccontr)
    assume "valid_candidates (pooled ?tr) \<noteq> []"
    then obtain c where "c \<in> set (valid_candidates (pooled ?tr))" by (cases "valid_candidates (pooled ?tr)") auto
    then obtain a where c: "c \<in> set (pooled ?tr)" "answer c = Some a" "a \<noteq> []"
      using valid_candidates_valid by blast
    from pooled_member [OF c(1)] obtain q chunk results r where
      r: "PipelineCall q chunk (Inr results) \<in> set ?tr" "r \<in> set results" "c = annotate chunk r"
      by blast
    from r(1,2) assms(4) have "answer r = None \<or> answer r = Some []" by blast
    with r(3) c(2,3) show False by (auto simp: annotate_def)
  qed
  moreover from this have "outcome_of (get_answer mc question pdf_text w) = Inr no_confident_answer"
    using extractive_windows(2) [OF assms(1) chunks windows, of question w]
    by (simp add: select_answer_none)
  ultimately show ?thesis by (simp add: no_confident_answer_def)
qed

text \<open>
  Three windows: the first call returns nothing, the second raises, the third returns a
  candidate with an empty answer and one without an answer.
\<close>

theorem no_usable_candidate_witness:
  "\<not> is_generative (extractive (by_window (Inr []) (Inl (Exception ''out of memory''))
        (Inr [\<lparr>answer = Some [], score = 0.9\<rparr>, \<lparr>answer = None, score = 0.8\<rparr>])))
   \<and> long_text \<noteq> []
   \<and> PipelineCall ''q'' (replicate 76 CHR ''a'')
        (Inr [\<lparr>answer = Some [], score = 0.9\<rparr>, \<lparr>answer = None, score = 0.8\<rparr>])
      \<in> set (events_of (get_answer (extractive (by_window (Inr []) (Inl (Exception ''out of memory''))
        (Inr [\<lparr>answer = Some [], score = 0.9\<rparr>, \<lparr>answer = None, score = 0.8\<rparr>])))
        ''q'' (DocStr long_text) ()))
   \<and> outcome_of (get_answer (extractive (by_window (Inr []) (Inl (Exception ''out of memory''))
        (Inr [\<lparr>answer = Some [], score = 0.9\<rparr>, \<lparr>answer = None, score = 0.8\<rparr>])))
        ''q'' (DocStr long_text) ()) =
      Inr \<lparr>res_answer = ''Sorry, I couldn't find a confident answer in the document.'',
           res_score = 0, res_context = ''N/A''\<rparr>"
  using no_usable_candidate [of "extractive (by_window (Inr []) (Inl (Exception ''out of memory''))
        (Inr [\<lparr>answer = Some [], score = 0.9\<rparr>, \<lparr>answer = None, score = 0.8\<rparr>]))"
        "DocStr long_text" long_text "''q''" "()"]
  by (simp add: run_defs)

text \<open>
  C2. On the extractive path, let the pool be the candidates with a non-empty answer among
  those the successful pipeline calls returned, in scan order (window after window, and within
  a window in the order the pipeline returned them). Whenever the pool is not empty, the
  result of \<^verbatim>\<open>get_answer\<close> is the answer, score and context of the pool element at some
  index \<open>k\<close> whose score is the maximum of the pool and strictly greater than the score of
  every earlier element: the first candidate with the maximum score.
\<close>

theorem best_candidate_first_max:
  assumes "\<not> is_generative mc"
    and "pool = valid_candidates (pooled (events_of (get_answer mc question pdf_text w)))"
    and "pool \<noteq> []"
  shows "\<exists>k<length pool.
           (\<forall>j<length pool. score (pool ! j) \<le> score (pool ! k))
         \<and> (\<forall>j<k. score (pool ! j) < score (pool ! k))
         \<and> (\<exists>a. answer (pool ! k) = Some a
              \<and> outcome_of (get_answer mc question pdf_text w) =
                  Inr \<lparr>res_answer = a, res_score = score (pool ! k),
                       res_context = context' (pool ! k)\<rparr>)"
proof -
  let ?tr = "events_of (get_answer mc question pdf_text w)"
  have "?tr \<noteq> []" using assms(2,3) by (auto simp: valid_candidates_def pooled_def)
  from extractive_events_windows [OF assms(1) this] obtain chunks where
    windows: "make_chunks pdf_text = Inr chunks" "chunks \<noteq> []" by blast
  have out: "outcome_of (get_answer mc question pdf_text w) = select_answer (pooled ?tr)"
    by (rule extractive_windows(2) [OF assms(1) windows])
  from assms(2,3) have "valid_candidates (pooled ?tr) \<noteq> []" by simp
  from select_answer_best [OF this] show ?thesis unfolding out assms(2) by blast
qed

text \<open>
  The example of the spec: one candidate per window, with the scores 0.2, 0.9 and 0.5. The
  result is the candidate of the second window, with that window as its context.
\<close>

theorem best_candidate_first_max_witness:
  "\<not> is_generative (extractive (by_window (Inr [\<lparr>answer = Some ''first'', score = 0.2\<rparr>])
        (Inr [\<lparr>answer = Some ''second'', score = 0.9\<rparr>])
        (Inr [\<lparr>answer = Some ''third'', score = 0.5\<rparr>])))
   \<and> valid_candidates (pooled (events_of (get_answer
        (extractive (by_window (Inr [\<lparr>answer = Some ''first'', score = 0.2\<rparr>])
          (Inr [\<lparr>answer = Some ''second'', score = 0.9\<rparr>])
          (Inr [\<lparr>answer = Some ''third'', score = 0.5\<rparr>])))
        ''q'' (DocStr long_text) ()))) \<noteq> []
   \<and> outcome_of (get_answer
        (extractive (by_window (Inr [\<lparr>answer = Some ''first'', score = 0.2\<rparr>])
          (Inr [\<lparr>answer = Some ''second'', score = 0.9\<rparr>])
          (Inr [\<lparr>answer = Some ''third'', score = 0.5\<rparr>])))
        ''q'' (DocStr long_text) ()) =
      Inr \<lparr>res_answer = ''second'', res_score = 0.9, res_context = replicate 488 CHR ''a''\<rparr>"
  using best_candidate_first_max [of
      "extractive (by_window (Inr [\<lparr>answer = Some ''first'', score = 0.2\<rparr>])
          (Inr [\<lparr>answer = Some ''second'', score = 0.9\<rparr>])
          (Inr [\<lparr>answer = Some ''third'', score = 0.5\<rparr>]))"
      _ "''q''" "DocStr long_text" "()"]
  by (simp add: run_defs)

text \<open>
  A tie: the second and the third window both give the score 0.9, two candidates of the second
  window share it, and the result is the first of them in scan order.
\<close>

lemma tie_goes_to_the_first:
  "outcome_of (get_answer
        (extractive (by_window (Inr [\<lparr>answer = Some ''first'', score = 0.2\<rparr>])
          (Inr [\<lparr>answer = Some ''second'', score = 0.9\<rparr>, \<lparr>answer = Some ''second again'', score = 0.9\<rparr>])
          (Inr [\<lparr>answer = Some ''third'', score = 0.9\<rparr>])))
        ''q'' (DocStr long_text) ()) =
      Inr \<lparr>res_answer = ''second'', res_score = 0.9, res_context = replicate 488 CHR ''a''\<rparr>"
  by (simp add: run_defs)

section \<open>What the loop leaves in the trace\<close>

lemma process_chunk_events:
  assumes "e \<in> set (trace (process_chunk qa question st chunk))"
  shows "e \<in> set (trace st) \<or> (\<exists>out. e = PipelineCall question chunk out) \<or> (\<exists>msg. e = Print (''Error processing a chunk: '' @ msg))"
  by (rule process_chunk_cases [where qa = qa and question = question and st = st and chunk = chunk])
     (use assms in auto)

lemma score_chunks_events:
  assumes "e \<in> set (trace (score_chunks qa question chunks w))"
  shows "e = Spinner_Searching (length chunks)
       \<or> (\<exists>chunk out. chunk \<in> set chunks \<and> e = PipelineCall question chunk out)
       \<or> (\<exists>msg. e = Print (''Error processing a chunk: '' @ msg))"
proof -
  let ?P = "\<lambda>st. \<forall>e \<in> set (trace st). e = Spinner_Searching (length chunks)
       \<or> (\<exists>chunk out. chunk \<in> set chunks \<and> e = PipelineCall question chunk out)
       \<or> (\<exists>msg. e = Print (''Error processing a chunk: '' @ msg))"
  have "?P (foldl (process_chunk qa question)
             \<lparr>trace = [Spinner_Searching (length chunks)], all_candidates = [], world = w\<rparr> chunks)"
  proof (rule foldl_invariant)
    show "?P \<lparr>trace = [Spinner_Searching (length chunks)], all_candidates = [], world = w\<rparr>" by simp
  next
    fix st :: "'a loop_state" and c
    assume c: "c \<in> set chunks" and inv: "?P st"
    show "?P (process_chunk qa question st c)"
    proof
      fix e assume "e \<in> set (trace (process_chunk qa question st c))"
      from process_chunk_events [OF this] inv c
      show "e = Spinner_Searching (length chunks)
       \<or> (\<exists>chunk out. chunk \<in> set chunks \<and> e = PipelineCall question chunk out)
       \<or> (\<exists>msg. e = Print (''Error processing a chunk: '' @ msg))" by blast
    qed
  qed
  with assms show ?thesis by (simp add: score_chunks_def)
qed

lemma process_chunk_calls:
  "pipeline_calls (trace (process_chunk (Some f) question st chunk)) =
     pipeline_calls (trace st) @ [(question, chunk)]"
  by (rule process_chunk_cases [where qa = "Some f" and question = question and st = st and chunk = chunk])
     (simp_all add: pipeline_calls_def)

lemma foldl_process_chunk_calls:
  "pipeline_calls (trace (foldl (process_chunk (Some f) question) st chunks)) =
     pipeline_calls (trace st) @ map (Pair question) chunks"
  by (induction chunks arbitrary: st) (simp_all add: process_chunk_calls)

lemma score_chunks_calls:
  "pipeline_calls (trace (score_chunks (Some f) question chunks w)) = map (Pair question) chunks"
  by (simp add: score_chunks_def foldl_process_chunk_calls) (simp add: pipeline_calls_def)

lemma process_chunk_printed:
  assumes "printed (trace st) = map ((@) ''Error processing a chunk: '') (failures (trace st))"
  shows "printed (trace (process_chunk (Some f) question st chunk)) =
           map ((@) ''Error processing a chunk: '')
             (failures (trace (process_chunk (Some f) question st chunk)))"
  by (rule process_chunk_cases [where qa = "Some f" and question = question and st = st and chunk = chunk])
     (use assms in \<open>simp_all add: printed_def failures_def\<close>)

lemma score_chunks_printed:
  "printed (trace (score_chunks (Some f) question chunks w)) =
     map ((@) ''Error processing a chunk: '') (failures (trace (score_chunks (Some f) question chunks w)))"
  unfolding score_chunks_def
  by (rule foldl_invariant) (simp_all add: process_chunk_printed, simp_all add: printed_def failures_def)

section \<open>Failures, filtering and contexts\<close>

text \<open>
  C3. On the extractive path an exception of a pipeline call never leaves
  \<^verbatim>\<open>get_answer\<close>: whenever the test of line 84 itself returns, \<^verbatim>\<open>get_answer\<close>
  returns a result, whatever the pipeline calls do, and the only exception that can leave it
  is one raised by that test, before any call. With a pipeline present, the pipeline is called
  once for every window, in order, also after a call that raised; for every call that raised
  one line "Error processing a chunk: ..." with the message of the exception is printed, and
  nothing else is printed. When there is a window, the result is the selection among the
  candidates of the calls that returned: a call that raised contributes no candidate.
\<close>

theorem window_failure_is_skipped:
  assumes "\<not> is_generative mc"
  shows "(\<forall>chunks. make_chunks pdf_text = Inr chunks \<longrightarrow>
            (\<exists>r. outcome_of (get_answer mc question pdf_text w) = Inr r)
          \<and> (chunks \<noteq> [] \<longrightarrow>
                outcome_of (get_answer mc question pdf_text w) =
                  select_answer (pooled (events_of (get_answer mc question pdf_text w))))
          \<and> (\<forall>f. pipeline mc = Some f \<longrightarrow>
                pipeline_calls (events_of (get_answer mc question pdf_text w)) =
                  map (Pair question) chunks
                \<and> printed (events_of (get_answer mc question pdf_text w)) =
                    map ((@) ''Error processing a chunk: '')
                      (failures (events_of (get_answer mc question pdf_text w)))))
       \<and> (\<forall>e. outcome_of (get_answer mc question pdf_text w) = Inl e \<longrightarrow>
            make_chunks pdf_text = Inl e
            \<and> events_of (get_answer mc question pdf_text w) = [])"
proof (intro conjI allI impI)
  fix chunks
  assume mk: "make_chunks pdf_text = Inr chunks"
  show "\<exists>r. outcome_of (get_answer mc question pdf_text w) = Inr r"
  proof (cases "chunks = []")
    case True
    with mk have "make_chunks pdf_text = Inr []" by simp
    from extractive_no_windows [OF assms this, of question w] show ?thesis by simp
  next
    case False
    show ?thesis unfolding extractive_windows(2) [OF assms mk False, of question w]
      by (rule select_answer_returns)
  qed
next
  fix chunks
  assume "make_chunks pdf_text = Inr chunks" and "chunks \<noteq> []"
  then show "outcome_of (get_answer mc question pdf_text w) =
      select_answer (pooled (events_of (get_answer mc question pdf_text w)))"
    by (rule extractive_windows(2) [OF assms])
next
  fix chunks f
  assume mk: "make_chunks pdf_text = Inr chunks" and f: "pipeline mc = Some f"
  show "pipeline_calls (events_of (get_answer mc question pdf_text w)) =
      map (Pair question) chunks"
  proof (cases "chunks = []")
    case True
    with mk have "make_chunks pdf_text = Inr []" by simp
    from extractive_no_windows [OF assms this, of question w] True
    show ?thesis by (simp add: pipeline_calls_def)
  next
    case False
    show ?thesis unfolding extractive_windows(1) [OF assms mk False, of question w] f
      by (rule score_chunks_calls)
  qed
  show "printed (events_of (get_answer mc question pdf_text w)) =
      map ((@) ''Error processing a chunk: '')
        (failures (events_of (get_answer mc question pdf_text w)))"
  proof (cases "chunks = []")
    case True
    with mk have "make_chunks pdf_text = Inr []" by simp
    from extractive_no_windows [OF assms this, of question w]
    show ?thesis by (simp add: printed_def failures_def)
  next
    case False
    show ?thesis unfolding extractive_windows(1) [OF assms mk False, of question w] f
      by (rule score_chunks_printed)
  qed
next
  fix e
  assume raised: "outcome_of (get_answer mc question pdf_text w) = Inl e"
  have "make_chunks pdf_text = Inl e \<and> events_of (get_answer mc question pdf_text w) = []"
  proof (cases "make_chunks pdf_text")
    case (Inl e')
    from extractive_raises [OF assms this, of question w] raised Inl show ?thesis by simp
  next
    case (Inr chunks)
    show ?thesis
    proof (cases "chunks = []")
      case True
      with Inr have "make_chunks pdf_text = Inr []" by simp
      from extractive_no_windows [OF assms this, of question w] raised show ?thesis by simp
    next
      case False
      from extractive_windows(2) [OF assms Inr False, of question w] raised
        select_answer_returns [of "pooled (events_of (get_answer mc question pdf_text w))"]
      show ?thesis by auto
    qed
  qed
  then show "make_chunks pdf_text = Inl e"
    and "events_of (get_answer mc question pdf_text w) = []" by simp_all
qed

text \<open>
  The scenario of the spec: three windows, the call for the second one raises, the first and
  the third return a candidate. The three calls are made, the failure is printed, and the
  result is the candidate of the third window.
\<close>

theorem window_failure_is_skipped_witness:
  "\<not> is_generative (extractive (by_window (Inr [\<lparr>answer = Some ''one'', score = 0.4\<rparr>])
        (Inl (Exception ''timeout'')) (Inr [\<lparr>answer = Some ''three'', score = 0.7\<rparr>])))
   \<and> make_chunks (DocStr long_text) =
       Inr [replicate 512 CHR ''a'', replicate 488 CHR ''a'', replicate 76 CHR ''a'']
   \<and> outcome_of (get_answer (extractive (by_window (Inr [\<lparr>answer = Some ''one'', score = 0.4\<rparr>])
        (Inl (Exception ''timeout'')) (Inr [\<lparr>answer = Some ''three'', score = 0.7\<rparr>])))
        ''q'' (DocStr long_text) ()) =
      Inr \<lparr>res_answer = ''three'', res_score = 0.7, res_context = replicate 76 CHR ''a''\<rparr>
   \<and> length (pipeline_calls (events_of (get_answer (extractive (by_window
        (Inr [\<lparr>answer = Some ''one'', score = 0.4\<rparr>])
        (Inl (Exception ''timeout'')) (Inr [\<lparr>answer = Some ''three'', score = 0.7\<rparr>])))
        ''q'' (DocStr long_text) ()))) = 3
   \<and> printed (events_of (get_answer (extractive (by_window
        (Inr [\<lparr>answer = Some ''one'', score = 0.4\<rparr>])
        (Inl (Exception ''timeout'')) (Inr [\<lparr>answer = Some ''three'', score = 0.7\<rparr>])))
        ''q'' (DocStr long_text) ())) = [''Error processing a chunk: timeout'']"
  using window_failure_is_skipped [of "extractive (by_window
        (Inr [\<lparr>answer = Some ''one'', score = 0.4\<rparr>])
        (Inl (Exception ''timeout'')) (Inr [\<lparr>answer = Some ''three'', score = 0.7\<rparr>]))"
        "DocStr long_text" "''q''" "()"]
  by (simp add: run_defs pipeline_calls_def printed_def failures_def)

text \<open>
  C6. Every candidate that passes the filter of line 107 has an answer that is present and
  not empty, so a candidate with a missing or empty answer is not in the pool the maximum is
  taken over. On the extractive path a returned answer text is never empty, a result is
  returned whenever the test of line 84 returns, and when the pool is not empty the result is
  the answer, score and context of a member of the pool, whatever the scores of the
  candidates that were filtered out.
\<close>

theorem empty_answer_never_selected:
  assumes "\<not> is_generative mc"
    and "pool = valid_candidates (pooled (events_of (get_answer mc question pdf_text w)))"
  shows "(\<forall>c \<in> set pool. \<exists>a. answer c = Some a \<and> a \<noteq> [])
       \<and> (\<forall>r. outcome_of (get_answer mc question pdf_text w) = Inr r \<longrightarrow>
              res_answer r \<noteq> []
              \<and> (pool \<noteq> [] \<longrightarrow>
                   (\<exists>c \<in> set pool. answer c = Some (res_answer r) \<and> score c = res_score r
                        \<and> context' c = res_context r)))
       \<and> (\<forall>chunks. make_chunks pdf_text = Inr chunks \<longrightarrow>
              (\<exists>r. outcome_of (get_answer mc question pdf_text w) = Inr r))
       \<and> (pool \<noteq> [] \<longrightarrow> (\<exists>r. outcome_of (get_answer mc question pdf_text w) = Inr r))"
proof -
  let ?tr = "events_of (get_answer mc question pdf_text w)"
  have a: "\<forall>c \<in> set pool. \<exists>a. answer c = Some a \<and> a \<noteq> []"
    unfolding assms(2) using valid_candidates_valid by blast
  have returns: "\<exists>r. outcome_of (get_answer mc question pdf_text w) = Inr r"
    if mk: "make_chunks pdf_text = Inr chunks" for chunks
  proof (cases "chunks = []")
    case True
    with mk have "make_chunks pdf_text = Inr []" by simp
    from extractive_no_windows [OF assms(1) this, of question w] show ?thesis by simp
  next
    case False
    show ?thesis unfolding extractive_windows(2) [OF assms(1) mk False, of question w]
      by (rule select_answer_returns)
  qed
  have windows: "\<exists>chunks. make_chunks pdf_text = Inr chunks \<and> chunks \<noteq> []" if "pool \<noteq> []"
  proof -
    from that have "?tr \<noteq> []" unfolding assms(2) by (auto simp: valid_candidates_def pooled_def)
    then show ?thesis by (rule extractive_events_windows [OF assms(1)])
  qed
  have b: "res_answer r \<noteq> []
              \<and> (pool \<noteq> [] \<longrightarrow>
                   (\<exists>c \<in> set pool. answer c = Some (res_answer r) \<and> score c = res_score r
                        \<and> context' c = res_context r))"
    if r: "outcome_of (get_answer mc question pdf_text w) = Inr r" for r
  proof (cases "pool = []")
    case True
    have "res_answer r \<noteq> []"
    proof (cases "make_chunks pdf_text")
      case (Inl e)
      from extractive_raises [OF assms(1) this, of question w] r show ?thesis by simp
    next
      case (Inr chunks)
      show ?thesis
      proof (cases "chunks = []")
        case empty: True
        with Inr have "make_chunks pdf_text = Inr []" by simp
        from extractive_no_windows [OF assms(1) this, of question w] r
        show ?thesis by (auto simp: empty_document_def)
      next
        case False
        from extractive_windows(2) [OF assms(1) Inr False, of question w] r True
          select_answer_none [of "pooled ?tr"] assms(2)
        show ?thesis by (auto simp: no_confident_answer_def)
      qed
    qed
    with True show ?thesis by simp
  next
    case ne: False
    from windows [OF ne] obtain chunks where mk: "make_chunks pdf_text = Inr chunks" "chunks \<noteq> []"
      by blast
    note out = extractive_windows(2) [OF assms(1) mk, of question w]
    from ne have "valid_candidates (pooled ?tr) \<noteq> []" using assms(2) by simp
    from select_answer_best [OF this] obtain k a where k: "k < length pool"
      and ans: "answer (pool ! k) = Some a" "a \<noteq> []"
      and sel: "select_answer (pooled ?tr) =
        Inr \<lparr>res_answer = a, res_score = score (pool ! k), res_context = context' (pool ! k)\<rparr>"
      unfolding assms(2) by blast
    from k have "pool ! k \<in> set pool" by simp
    then show ?thesis using out sel ans r by auto
  qed
  have c: "pool \<noteq> [] \<longrightarrow> (\<exists>r. outcome_of (get_answer mc question pdf_text w) = Inr r)"
    using windows returns by blast
  from a b returns c show ?thesis by blast
qed

text \<open>
  The first window gives a candidate with an empty answer and the score 0.99 and one without
  an answer and the score 0.98; the only candidate with an answer has the score 0.1, and it is
  the result.
\<close>

theorem empty_answer_never_selected_witness:
  "\<not> is_generative (extractive (by_window
        (Inr [\<lparr>answer = Some [], score = 0.99\<rparr>, \<lparr>answer = None, score = 0.98\<rparr>])
        (Inr [\<lparr>answer = Some ''moon'', score = 0.1\<rparr>]) (Inr [])))
   \<and> valid_candidates (pooled (events_of (get_answer (extractive (by_window
        (Inr [\<lparr>answer = Some [], score = 0.99\<rparr>, \<lparr>answer = None, score = 0.98\<rparr>])
        (Inr [\<lparr>answer = Some ''moon'', score = 0.1\<rparr>]) (Inr [])))
        ''q'' (DocStr long_text) ()))) =
      [\<lparr>answer = Some ''moon'', score = 0.1, context' = replicate 488 CHR ''a''\<rparr>]
   \<and> outcome_of (get_answer (extractive (by_window
        (Inr [\<lparr>answer = Some [], score = 0.99\<rparr>, \<lparr>answer = None, score = 0.98\<rparr>])
        (Inr [\<lparr>answer = Some ''moon'', score = 0.1\<rparr>]) (Inr [])))
        ''q'' (DocStr long_text) ()) =
      Inr \<lparr>res_answer = ''moon'', res_score = 0.1, res_context = replicate 488 CHR ''a''\<rparr>"
  using empty_answer_never_selected [of "extractive (by_window
        (Inr [\<lparr>answer = Some [], score = 0.99\<rparr>, \<lparr>answer = None, score = 0.98\<rparr>])
        (Inr [\<lparr>answer = Some ''moon'', score = 0.1\<rparr>]) (Inr []))" _ "''q''" "DocStr long_text" "()"]
  by (simp add: run_defs)

lemma extractive_pipeline_event:
  assumes "\<not> is_generative mc"
    and "PipelineCall q chunk out \<in> set (events_of (get_answer mc question pdf_text w))"
  shows "\<exists>chunks. make_chunks pdf_text = Inr chunks \<and> q = question \<and> chunk \<in> set chunks"
proof -
  from assms(2) have "events_of (get_answer mc question pdf_text w) \<noteq> []" by auto
  from extractive_events_windows [OF assms(1) this] obtain chunks where
    windows: "make_chunks pdf_text = Inr chunks" "chunks \<noteq> []" by blast
  from assms(2) have "PipelineCall q chunk out \<in>
      set (trace (score_chunks (pipeline mc) question chunks w))"
    by (simp only: extractive_windows(1) [OF assms(1) windows])
  from score_chunks_events [OF this] windows(1) show ?thesis by auto
qed

text \<open>
  C7. On the extractive path every candidate of the pool was returned by a successful
  pipeline call for the question and one of the windows, keeps the answer and the score the
  pipeline gave it, and carries that window as its context: the slice of the document text
  that starts at a multiple of the stride and has the window length. When the filtered pool
  is not empty, the context of the result is the window of the call that returned the
  selected candidate.
\<close>

theorem candidates_carry_their_window:
  assumes "\<not> is_generative mc"
  shows "(\<forall>c \<in> set (pooled (events_of (get_answer mc question pdf_text w))).
           \<exists>s chunks k results r.
             pdf_text = DocStr s \<and> make_chunks pdf_text = Inr chunks \<and> k < length chunks
             \<and> context' c = chunks ! k
             \<and> context' c = slice s (k * (max_chunk_len - overlap))
                                      (k * (max_chunk_len - overlap) + max_chunk_len)
             \<and> PipelineCall question (context' c) (Inr results)
                 \<in> set (events_of (get_answer mc question pdf_text w))
             \<and> r \<in> set results \<and> answer c = answer r \<and> score c = score r)
       \<and> (valid_candidates (pooled (events_of (get_answer mc question pdf_text w))) \<noteq> [] \<longrightarrow>
           (\<exists>s chunks k results r a.
             pdf_text = DocStr s \<and> make_chunks pdf_text = Inr chunks \<and> k < length chunks
             \<and> PipelineCall question (chunks ! k) (Inr results)
                 \<in> set (events_of (get_answer mc question pdf_text w))
             \<and> r \<in> set results \<and> answer r = Some a
             \<and> chunks ! k = slice s (k * (max_chunk_len - overlap))
                                      (k * (max_chunk_len - overlap) + max_chunk_len)
             \<and> outcome_of (get_answer mc question pdf_text w) =
                 Inr \<lparr>res_answer = a, res_score = score r, res_context = chunks ! k\<rparr>))"
proof -
  let ?tr = "events_of (get_answer mc question pdf_text w)"
  let ?st = "max_chunk_len - overlap"
  have member: "\<exists>s chunks k results r.
             pdf_text = DocStr s \<and> make_chunks pdf_text = Inr chunks \<and> k < length chunks
             \<and> context' c = chunks ! k
             \<and> context' c = slice s (k * ?st) (k * ?st + max_chunk_len)
             \<and> PipelineCall question (context' c) (Inr results) \<in> set ?tr
             \<and> r \<in> set results \<and> answer c = answer r \<and> score c = score r"
    if c: "c \<in> set (pooled ?tr)" for c
  proof -
    from pooled_member [OF c] obtain q chunk results r where
      ev: "PipelineCall q chunk (Inr results) \<in> set ?tr" and r: "r \<in> set results"
      and ca: "c = annotate chunk r" by blast
    from extractive_pipeline_event [OF assms ev] obtain chunks where
      mk: "make_chunks pdf_text = Inr chunks" and q: "q = question"
      and chunk: "chunk \<in> set chunks" by blast
    from make_chunks_member [OF mk chunk] obtain s k where s: "pdf_text = DocStr s"
      and k: "k < length chunks" "chunks ! k = chunk"
      and sl: "chunk = slice s (k * ?st) (k * ?st + max_chunk_len)" by blast
    have cc: "context' c = chunk" and f4: "answer c = answer r" and f5: "score c = score r"
      using ca by (simp_all add: annotate_def)
    have f1: "context' c = chunks ! k" using cc k(2) by simp
    have f2: "context' c = slice s (k * ?st) (k * ?st + max_chunk_len)" using cc sl by simp
    have f3: "PipelineCall question (context' c) (Inr results) \<in> set ?tr"
      using ev q cc by simp
    from s mk k(1) f1 f2 f3 r f4 f5 show ?thesis by blast
  qed
  have selected: "\<exists>s chunks k results r a.
             pdf_text = DocStr s \<and> make_chunks pdf_text = Inr chunks \<and> k < length chunks
             \<and> PipelineCall question (chunks ! k) (Inr results) \<in> set ?tr
             \<and> r \<in> set results \<and> answer r = Some a
             \<and> chunks ! k = slice s (k * ?st) (k * ?st + max_chunk_len)
             \<and> outcome_of (get_answer mc question pdf_text w) =
                 Inr \<lparr>res_answer = a, res_score = score r, res_context = chunks ! k\<rparr>"
    if ne: "valid_candidates (pooled ?tr) \<noteq> []"
  proof -
    from ne have "?tr \<noteq> []" by (auto simp: valid_candidates_def pooled_def)
    from extractive_events_windows [OF assms this] obtain chunks0 where
      windows: "make_chunks pdf_text = Inr chunks0" "chunks0 \<noteq> []" by blast
    note out = extractive_windows(2) [OF assms windows, of question w]
    from select_answer_best [OF ne] obtain j a where j: "j < length (valid_candidates (pooled ?tr))"
      and ans: "answer (valid_candidates (pooled ?tr) ! j) = Some a"
      and sel: "select_answer (pooled ?tr) =
          Inr \<lparr>res_answer = a, res_score = score (valid_candidates (pooled ?tr) ! j),
               res_context = context' (valid_candidates (pooled ?tr) ! j)\<rparr>" by blast
    define c where "c = valid_candidates (pooled ?tr) ! j"
    from j have "c \<in> set (valid_candidates (pooled ?tr))" by (simp add: c_def)
    then have "c \<in> set (pooled ?tr)" using valid_candidates_valid by blast
    from member [OF this] obtain s chunks k results r where
      f: "pdf_text = DocStr s" "make_chunks pdf_text = Inr chunks" "k < length chunks"
      and g: "context' c = chunks ! k"
      "context' c = slice s (k * ?st) (k * ?st + max_chunk_len)"
      "PipelineCall question (context' c) (Inr results) \<in> set ?tr"
      and h: "r \<in> set results" "answer c = answer r" "score c = score r" by blast
    have o: "outcome_of (get_answer mc question pdf_text w) =
        Inr \<lparr>res_answer = a, res_score = score c, res_context = context' c\<rparr>"
      using out sel by (simp add: c_def)
    have ac: "answer c = Some a" using ans by (simp add: c_def)
    have g1: "PipelineCall question (chunks ! k) (Inr results) \<in> set ?tr" using g(1,3) by simp
    have g2: "chunks ! k = slice s (k * ?st) (k * ?st + max_chunk_len)" using g(1,2) by simp
    have g3: "answer r = Some a" using ac h(2) by simp
    have g4: "outcome_of (get_answer mc question pdf_text w) =
        Inr \<lparr>res_answer = a, res_score = score r, res_context = chunks ! k\<rparr>"
      using o g(1) h(3) by simp
    from f g1 h(1) g3 g2 g4 show ?thesis by blast
  qed
  from member selected show ?thesis by blast
qed

text \<open>
  Two candidates with the same answer and score come from different windows, and the
  result carries the window of the one that was selected, the 488 characters from offset 412.
\<close>

theorem candidates_carry_their_window_witness:
  "\<not> is_generative (extractive (by_window (Inr [\<lparr>answer = Some ''moon'', score = 0.3\<rparr>])
        (Inr [\<lparr>answer = Some ''tide'', score = 0.8\<rparr>])
        (Inr [\<lparr>answer = Some ''moon'', score = 0.3\<rparr>])))
   \<and> pooled (events_of (get_answer (extractive (by_window
        (Inr [\<lparr>answer = Some ''moon'', score = 0.3\<rparr>])
        (Inr [\<lparr>answer = Some ''tide'', score = 0.8\<rparr>])
        (Inr [\<lparr>answer = Some ''moon'', score = 0.3\<rparr>])))
        ''q'' (DocStr long_text) ())) =
      [\<lparr>answer = Some ''moon'', score = 0.3, context' = slice long_text 0 512\<rparr>,
       \<lparr>answer = Some ''tide'', score = 0.8, context' = slice long_text 412 924\<rparr>,
       \<lparr>answer = Some ''moon'', score = 0.3, context' = slice long_text 824 1336\<rparr>]
   \<and> outcome_of (get_answer (extractive (by_window
        (Inr [\<lparr>answer = Some ''moon'', score = 0.3\<rparr>])
        (Inr [\<lparr>answer = Some ''tide'', score = 0.8\<rparr>])
        (Inr [\<lparr>answer = Some ''moon'', score = 0.3\<rparr>])))
        ''q'' (DocStr long_text) ()) =
      Inr \<lparr>res_answer = ''tide'', res_score = 0.8, res_context = slice long_text 412 924\<rparr>"
  using candidates_carry_their_window [of "extractive (by_window
        (Inr [\<lparr>answer = Some ''moon'', score = 0.3\<rparr>])
        (Inr [\<lparr>answer = Some ''tide'', score = 0.8\<rparr>])
        (Inr [\<lparr>answer = Some ''moon'', score = 0.3\<rparr>]))" "''q''" "DocStr long_text" "()"]
  by (simp add: run_defs)

section \<open>Determinism\<close>

lemma process_chunk_deterministic:
  assumes "case qa of None \<Rightarrow> True | Some f \<Rightarrow> deterministic_pipeline f"
    and "trace st = trace st'" and "all_candidates st = all_candidates st'"
  shows "trace (process_chunk qa question st chunk) = trace (process_chunk qa question st' chunk)
       \<and> all_candidates (process_chunk qa question st chunk) =
           all_candidates (process_chunk qa question st' chunk)"
proof (cases qa)
  case None
  with assms show ?thesis by (simp add: process_chunk_def)
next
  case (Some f)
  with assms(1) have "fst (f (world st) question chunk) = fst (f (world st') question chunk)"
    by (simp add: deterministic_pipeline_def)
  then obtain out w1 w2 where "f (world st) question chunk = (out, w1)"
    "f (world st') question chunk = (out, w2)"
    by (cases "f (world st) question chunk"; cases "f (world st') question chunk") simp
  with Some assms(2,3) show ?thesis
    by (cases out) (auto simp: process_chunk_def split: exn.splits)
qed

lemma foldl_process_chunk_deterministic:
  assumes "case qa of None \<Rightarrow> True | Some f \<Rightarrow> deterministic_pipeline f"
  shows "trace st = trace st' \<Longrightarrow> all_candidates st = all_candidates st' \<Longrightarrow>
     trace (foldl (process_chunk qa question) st chunks) =
       trace (foldl (process_chunk qa question) st' chunks)
     \<and> all_candidates (foldl (process_chunk qa question) st chunks) =
         all_candidates (foldl (process_chunk qa question) st' chunks)"
proof (induction chunks arbitrary: st st')
  case Nil
  then show ?case by simp
next
  case (Cons c cs)
  from process_chunk_deterministic [OF assms Cons.prems, of question c]
  have step: "trace (process_chunk qa question st c) = trace (process_chunk qa question st' c)"
    "all_candidates (process_chunk qa question st c) =
       all_candidates (process_chunk qa question st' c)" by simp_all
  from Cons.IH [OF step] show ?case by simp
qed

lemma extractive_path_deterministic:
  assumes "case pipeline mc of None \<Rightarrow> True | Some f \<Rightarrow> deterministic_pipeline f"
  shows "fst (extractive_path mc question pdf_text w) = fst (extractive_path mc question pdf_text w')"
proof (cases "make_chunks pdf_text")
  case (Inl e)
  then show ?thesis by (simp add: extractive_path_def)
next
  case (Inr chunks)
  have "trace (score_chunks (pipeline mc) question chunks w) =
          trace (score_chunks (pipeline mc) question chunks w')
      \<and> all_candidates (score_chunks (pipeline mc) question chunks w) =
          all_candidates (score_chunks (pipeline mc) question chunks w')"
    unfolding score_chunks_def by (rule foldl_process_chunk_deterministic [OF assms]) simp_all
  with Inr show ?thesis by (simp add: extractive_path_def Let_def)
qed

lemma generative_path_deterministic:
  assumes m: "deterministic_model m"
    and t: "case tokenizer mc of None \<Rightarrow> True | Some t \<Rightarrow> deterministic_tokenizer t"
  shows "fst (generative_path mc m question pdf_text w) = fst (generative_path mc m question pdf_text w')"
proof (cases "device mc")
  case None
  then show ?thesis by (simp add: generative_path_def)
next
  case (Some dev)
  show ?thesis
  proof (cases "format_doc pdf_text")
    case (Inl e)
    with Some show ?thesis by (simp add: generative_path_def)
  next
    case doc: (Inr rendered)
    show ?thesis
    proof (cases "tokenizer mc")
      case None
      with Some doc show ?thesis by (simp add: generative_path_def)
    next
      case tok: (Some tok)
      let ?text = "''question: '' @ question @ '' context: '' @ rendered"
      from t tok have
        enc: "\<And>w w'. fst (encode tok w ?text 1024 dev) = fst (encode tok w' ?text 1024 dev)"
        and dec: "\<And>w w' out. fst (decode tok w out) = fst (decode tok w' out)"
        by (simp_all add: deterministic_tokenizer_def)
      from m have gen: "\<And>w w' inputs. fst (generate m w inputs) = fst (generate m w' inputs)"
        by (simp add: deterministic_model_def)
      obtain o1 w1 w1' where e1: "encode tok w ?text 1024 dev = (o1, w1)"
        "encode tok w' ?text 1024 dev = (o1, w1')"
        using enc [of w w']
        by (cases "encode tok w ?text 1024 dev"; cases "encode tok w' ?text 1024 dev") simp
      show ?thesis
      proof (cases o1)
        case (Inl e)
        with Some doc tok e1 show ?thesis by (simp add: generative_path_def)
      next
        case (Inr inputs)
        obtain o2 w2 w2' where e2: "generate m w1 inputs = (o2, w2)"
          "generate m w1' inputs = (o2, w2')"
          using gen [of w1 inputs w1']
          by (cases "generate m w1 inputs"; cases "generate m w1' inputs") simp
        show ?thesis
        proof (cases o2)
          case (Inl e)
          with Some doc tok e1 e2 Inr show ?thesis by (simp add: generative_path_def)
        next
          case outs: (Inr outputs)
          show ?thesis
          proof (cases outputs)
            case Nil
            with Some doc tok e1 e2 Inr outs show ?thesis by (simp add: generative_path_def)
          next
            case (Cons out rest)
            obtain o3 w3 w3' where e3: "decode tok w2 out = (o3, w3)"
              "decode tok w2' out = (o3, w3')"
              using dec [of w2 out w2']
              by (cases "decode tok w2 out"; cases "decode tok w2' out") simp
            with Some doc tok e1 e2 Inr outs Cons show ?thesis
              by (cases o3) (simp_all add: generative_path_def)
          qed
        qed
      qed
    qed
  qed
qed

lemma extractive_event_kinds:
  assumes "\<not> is_generative mc" and "e \<in> set (events_of (get_answer mc question pdf_text w))"
  shows "(\<exists>n. e = Spinner_Searching n) \<or> (\<exists>chunk out. e = PipelineCall question chunk out)
       \<or> (\<exists>msg. e = Print (''Error processing a chunk: '' @ msg))"
proof -
  from assms(2) have "events_of (get_answer mc question pdf_text w) \<noteq> []" by auto
  from extractive_events_windows [OF assms(1) this] obtain chunks where
    windows: "make_chunks pdf_text = Inr chunks" "chunks \<noteq> []" by blast
  from assms(2) have "e \<in> set (trace (score_chunks (pipeline mc) question chunks w))"
    by (simp only: extractive_windows(1) [OF assms(1) windows])
  from score_chunks_events [OF this] show ?thesis by blast
qed

text \<open>
  C8, as the code has it. When the collaborators are deterministic (what each returns or
  raises depends on its arguments only), two runs of \<^verbatim>\<open>get_answer\<close> on the same
  components, question and text produce the same events and the same result, in whatever
  worlds they start: in particular a second run that starts in the world the first one left.
  The events of the extractive path are the progress spinner, the calls of the pipeline for
  the question, and the printed lines "Error processing a chunk: ..." of the failures.
\<close>

theorem deterministic_runs:
  assumes "deterministic mc"
  shows "fst (get_answer mc question pdf_text w) = fst (get_answer mc question pdf_text w')
       \<and> (\<not> is_generative mc \<longrightarrow>
            (\<forall>e \<in> set (events_of (get_answer mc question pdf_text w)).
               (\<exists>n. e = Spinner_Searching n) \<or> (\<exists>chunk out. e = PipelineCall question chunk out)
               \<or> (\<exists>msg. e = Print (''Error processing a chunk: '' @ msg))))"
proof -
  from assms have p: "case pipeline mc of None \<Rightarrow> True | Some f \<Rightarrow> deterministic_pipeline f"
    and m: "case model mc of None \<Rightarrow> True | Some m \<Rightarrow> deterministic_model m"
    and t: "case tokenizer mc of None \<Rightarrow> True | Some t \<Rightarrow> deterministic_tokenizer t"
    by (simp_all add: deterministic_def)
  have "fst (get_answer mc question pdf_text w) = fst (get_answer mc question pdf_text w')"
  proof (cases "model mc")
    case None
    then show ?thesis
      using extractive_path_deterministic [OF p, of question pdf_text w w']
      by (simp add: get_answer_def)
  next
    case (Some gm)
    with m have "deterministic_model gm" by simp
    from generative_path_deterministic [OF this t, of question pdf_text w w']
      extractive_path_deterministic [OF p, of question pdf_text w w'] Some
    show ?thesis by (simp add: get_answer_def)
  qed
  moreover have "\<not> is_generative mc \<longrightarrow>
            (\<forall>e \<in> set (events_of (get_answer mc question pdf_text w)).
               (\<exists>n. e = Spinner_Searching n) \<or> (\<exists>chunk out. e = PipelineCall question chunk out)
               \<or> (\<exists>msg. e = Print (''Error processing a chunk: '' @ msg)))"
  proof (intro impI ballI)
    fix e
    assume "\<not> is_generative mc" and "e \<in> set (events_of (get_answer mc question pdf_text w))"
    then show "(\<exists>n. e = Spinner_Searching n) \<or> (\<exists>chunk out. e = PipelineCall question chunk out)
               \<or> (\<exists>msg. e = Print (''Error processing a chunk: '' @ msg))"
      by (rule extractive_event_kinds)
  qed
  ultimately show ?thesis by (rule conjI)
qed

text \<open>
  A pipeline that counts its calls: the first run leaves the world at 3, and the run that
  starts in the world the first one left has the events and the result of the first one.
\<close>

theorem deterministic_runs_witness:
  "deterministic (extractive counting_pipeline)
   \<and> \<not> is_generative (extractive counting_pipeline)
   \<and> snd (get_answer (extractive counting_pipeline) ''q'' (DocStr long_text) 0) = 3
   \<and> fst (get_answer (extractive counting_pipeline) ''q'' (DocStr long_text) 0) =
       fst (get_answer (extractive counting_pipeline) ''q'' (DocStr long_text)
              (snd (get_answer (extractive counting_pipeline) ''q'' (DocStr long_text) 0)))
   \<and> outcome_of (get_answer (extractive counting_pipeline) ''q'' (DocStr long_text) 0) =
       Inr \<lparr>res_answer = replicate 3 CHR ''a'', res_score = 1 / 2,
            res_context = replicate 512 CHR ''a''\<rparr>"
proof -
  have det: "deterministic (extractive counting_pipeline)"
    by (simp add: extractive_def counting_pipeline_def deterministic_def deterministic_pipeline_def)
  have ext: "\<not> is_generative (extractive counting_pipeline)"
    by (simp add: is_generative_def extractive_def)
  have left: "snd (get_answer (extractive counting_pipeline) ''q'' (DocStr long_text) 0) = 3"
    by (simp add: run_defs counting_pipeline_def)
  have out: "outcome_of (get_answer (extractive counting_pipeline) ''q'' (DocStr long_text) 0) =
       Inr \<lparr>res_answer = replicate 3 CHR ''a'', res_score = 1 / 2,
            res_context = replicate 512 CHR ''a''\<rparr>"
    by (simp add: run_defs counting_pipeline_def)
  have same: "fst (get_answer (extractive counting_pipeline) ''q'' (DocStr long_text) 0) =
       fst (get_answer (extractive counting_pipeline) ''q'' (DocStr long_text) 3)"
    using deterministic_runs [OF det, of "''q''" "DocStr long_text" 0 3] by (rule conjunct1)
  have again: "fst (get_answer (extractive counting_pipeline) ''q'' (DocStr long_text) 0) =
       fst (get_answer (extractive counting_pipeline) ''q'' (DocStr long_text)
              (snd (get_answer (extractive counting_pipeline) ''q'' (DocStr long_text) 0)))"
    unfolding left by (rule same)
  show ?thesis by (intro conjI det ext left again out)
qed

text \<open>
  C8, as the claim states the side effects: none beyond the calls of the scorer and the
  logging of failures. A run of the extractive path on a non-empty text starts by showing the
  Streamlit spinner of line 92, an event that is neither a call of the pipeline nor a printed
  line.
\<close>

theorem side_effects_counterexample:
  "Spinner_Searching 3
     \<in> set (events_of (get_answer (extractive counting_pipeline) ''q'' (DocStr long_text) 0))
   \<and> event_call (Spinner_Searching 3) = []
   \<and> event_print (Spinner_Searching 3) = []"
  by (simp add: run_defs counting_pipeline_def)

section \<open>The generative path\<close>








end
